theory Spec2Isabelle
  imports Complex_Main
begin

section \<open>Data model of \<^verbatim>\<open>maze.ts\<close>\<close>

text \<open>
  The interfaces \<^verbatim>\<open>Cell\<close> and \<^verbatim>\<open>Maze\<close> as records. The field \<^verbatim>\<open>top\<close> of
  \<^verbatim>\<open>walls\<close> is called \<open>top_wall\<close> (the name \<open>top\<close> is the greatest element of a
  lattice in HOL), and the field \<^verbatim>\<open>end\<close> of \<^verbatim>\<open>Maze\<close> is called \<open>end_pos\<close>.
  The positions \<^verbatim>\<open>{row, col}\<close> of \<^verbatim>\<open>start\<close> and \<^verbatim>\<open>end\<close> are pairs (row, col).
  The numbers of the source are integers here.
\<close>

record wall_flags =
  top_wall :: bool
  right :: bool
  bottom :: bool
  left :: bool

record cell =
  row :: int
  col :: int
  walls :: wall_flags
  visited :: bool

record maze =
  rows :: int
  cols :: int
  cells :: "cell list list"
  start :: "int \<times> int"
  end_pos :: "int \<times> int"

datatype error = InvalidGridSize

text \<open>
  Cells are objects: the grid, the stack and the neighbour arrays hold references to
  the same cell objects, and the carving loop mutates a cell through whichever
  reference it holds. Every cell object is created by \<^verbatim>\<open>createGrid\<close> and stored at
  exactly one place of the grid, so the grid is the store and a reference is the pair
  of indices at which the object lives. Two references alias exactly when they are the
  same pair.
\<close>

type_synonym ref = "nat \<times> nat"

definition deref :: "cell list list \<Rightarrow> ref \<Rightarrow> cell" where
  "deref g p = g ! fst p ! snd p"

definition update_cell :: "cell list list \<Rightarrow> ref \<Rightarrow> (cell \<Rightarrow> cell) \<Rightarrow> cell list list" where
  "update_cell g p f = g[fst p := (g ! fst p)[snd p := f (g ! fst p ! snd p)]]"

text \<open>
  Reading a JavaScript array at a number: an index outside \<open>0 .. length - 1\<close> gives
  \<^verbatim>\<open>undefined\<close>, which is \<open>None\<close>.
\<close>

definition js_index :: "'a list \<Rightarrow> int \<Rightarrow> 'a option" where
  "js_index xs i = (if 0 \<le> i \<and> i < int (length xs) then Some (xs ! nat i) else None)"

text \<open>\<^verbatim>\<open>grid[r]?.[c]\<close>: the reference to the cell stored there, or \<^verbatim>\<open>undefined\<close>.\<close>

definition lookup :: "cell list list \<Rightarrow> int \<Rightarrow> int \<Rightarrow> ref option" where
  "lookup g r c =
     (case js_index g r of
        None \<Rightarrow> None
      | Some rw \<Rightarrow> (if 0 \<le> c \<and> c < int (length rw) then Some (nat r, nat c) else None))"

section \<open>\<^verbatim>\<open>createGrid\<close>\<close>

definition new_cell :: "int \<Rightarrow> int \<Rightarrow> cell" where
  "new_cell r c =
     \<lparr>row = r, col = c,
      walls = \<lparr>top_wall = True, right = True, bottom = True, left = True\<rparr>,
      visited = False\<rparr>"

text \<open>The inner loop \<^verbatim>\<open>for (let c = 0; c < cols; c++) row.push(...)\<close>.\<close>

function createRow :: "int \<Rightarrow> int \<Rightarrow> int \<Rightarrow> cell list \<Rightarrow> cell list" where
  "createRow r ncols c rw =
     (if c < ncols then createRow r ncols (c + 1) (rw @ [new_cell r c]) else rw)"
  by pat_completeness auto
termination
  by (relation "measure (\<lambda>(r, ncols, c, rw). nat (ncols - c))") auto

text \<open>The outer loop \<^verbatim>\<open>for (let r = 0; r < rows; r++) grid.push(row)\<close>.\<close>

function createRows :: "int \<Rightarrow> int \<Rightarrow> int \<Rightarrow> cell list list \<Rightarrow> cell list list" where
  "createRows nrows ncols r g =
     (if r < nrows then createRows nrows ncols (r + 1) (g @ [createRow r ncols 0 []]) else g)"
  by pat_completeness auto
termination
  by (relation "measure (\<lambda>(nrows, ncols, r, g). nat (nrows - r))") auto

definition createGrid :: "int \<Rightarrow> int \<Rightarrow> cell list list" where
  "createGrid nrows ncols = createRows nrows ncols 0 []"

section \<open>\<^verbatim>\<open>getUnvisitedNeighbors\<close>\<close>

text \<open>
  \<^verbatim>\<open>const x = grid[r]?.[c]; if (x && !x.visited) neighbors.push(x);\<close>
  where \<open>cand\<close> is the outcome of the indexing.
\<close>

definition push_unvisited :: "cell list list \<Rightarrow> ref option \<Rightarrow> ref list \<Rightarrow> ref list" where
  "push_unvisited g cand neighbors =
     (case cand of
        None \<Rightarrow> neighbors
      | Some x \<Rightarrow> (if \<not> visited (deref g x) then neighbors @ [x] else neighbors))"

definition getUnvisitedNeighbors :: "cell list list \<Rightarrow> ref \<Rightarrow> ref list" where
  "getUnvisitedNeighbors g cell_ref =
     (let r = row (deref g cell_ref);
          c = col (deref g cell_ref);
          nrows = int (length g);
          ncols = (case js_index g 0 of None \<Rightarrow> 0 | Some rw \<Rightarrow> int (length rw));
          n0 = [];
          n1 = (if r > 0 then push_unvisited g (lookup g (r - 1) c) n0 else n0);
          n2 = (if r < nrows - 1 then push_unvisited g (lookup g (r + 1) c) n1 else n1);
          n3 = (if c > 0 then push_unvisited g (lookup g r (c - 1)) n2 else n2);
          n4 = (if c < ncols - 1 then push_unvisited g (lookup g r (c + 1)) n3 else n3)
      in n4)"

section \<open>\<^verbatim>\<open>removeWallBetween\<close>\<close>

definition set_top :: "cell list list \<Rightarrow> ref \<Rightarrow> bool \<Rightarrow> cell list list" where
  "set_top g p b = update_cell g p (\<lambda>x. x\<lparr>walls := (walls x)\<lparr>top_wall := b\<rparr>\<rparr>)"

definition set_right :: "cell list list \<Rightarrow> ref \<Rightarrow> bool \<Rightarrow> cell list list" where
  "set_right g p b = update_cell g p (\<lambda>x. x\<lparr>walls := (walls x)\<lparr>right := b\<rparr>\<rparr>)"

definition set_bottom :: "cell list list \<Rightarrow> ref \<Rightarrow> bool \<Rightarrow> cell list list" where
  "set_bottom g p b = update_cell g p (\<lambda>x. x\<lparr>walls := (walls x)\<lparr>bottom := b\<rparr>\<rparr>)"

definition set_left :: "cell list list \<Rightarrow> ref \<Rightarrow> bool \<Rightarrow> cell list list" where
  "set_left g p b = update_cell g p (\<lambda>x. x\<lparr>walls := (walls x)\<lparr>left := b\<rparr>\<rparr>)"

definition set_visited :: "cell list list \<Rightarrow> ref \<Rightarrow> bool \<Rightarrow> cell list list" where
  "set_visited g p b = update_cell g p (\<lambda>x. x\<lparr>visited := b\<rparr>)"

definition removeWallBetween :: "cell list list \<Rightarrow> ref \<Rightarrow> ref \<Rightarrow> cell list list" where
  "removeWallBetween g current nxt =
     (let dx = col (deref g nxt) - col (deref g current);
          dy = row (deref g nxt) - row (deref g current)
      in if dx = 1 then set_left (set_right g current False) nxt False
         else if dx = - 1 then set_right (set_left g current False) nxt False
         else if dy = 1 then set_top (set_bottom g current False) nxt False
         else if dy = - 1 then set_bottom (set_top g current False) nxt False
         else g)"

section \<open>\<^verbatim>\<open>generateMaze\<close>\<close>

text \<open>
  The state of the carving loop: the grid, the stack (the top is the last element, as
  \<^verbatim>\<open>push\<close> and \<^verbatim>\<open>pop\<close> work at the end of the array) and the number of calls of
  \<^verbatim>\<open>Math.random\<close> made so far. The random source is a sequence \<open>rnd\<close> of numbers:
  call number \<open>k\<close> returns \<open>rnd k\<close>. \<^verbatim>\<open>Math.random\<close> promises a number in \<open>[0, 1)\<close>;
  the model does not assume it, and takes the branch \<^verbatim>\<open>if (!next) continue\<close> when
  the index falls outside the neighbour array. The loop then need not end, so it is a
  partial function: \<open>None\<close> is a run that never leaves the loop.
\<close>

record carve_state =
  grid :: "cell list list"
  stack :: "ref list"
  draws :: nat

definition random_index :: "real \<Rightarrow> nat \<Rightarrow> int" where
  "random_index u n = \<lfloor>u * real n\<rfloor>"

partial_function (option) carve :: "(nat \<Rightarrow> real) \<Rightarrow> carve_state \<Rightarrow> carve_state option" where
  "carve rnd st =
     (if length (stack st) > 0 then
        (case js_index (stack st) (int (length (stack st)) - 1) of
           None \<Rightarrow> Some st
         | Some current \<Rightarrow>
             (let neighbors = getUnvisitedNeighbors (grid st) current
              in if length neighbors = 0 then carve rnd (st\<lparr>stack := butlast (stack st)\<rparr>)
                 else
                   (let randomIndex = random_index (rnd (draws st)) (length neighbors)
                    in case js_index neighbors randomIndex of
                         None \<Rightarrow> carve rnd (st\<lparr>draws := Suc (draws st)\<rparr>)
                       | Some nxt \<Rightarrow>
                           carve rnd
                             \<lparr>grid = set_visited (removeWallBetween (grid st) current nxt) nxt True,
                              stack = stack st @ [nxt],
                              draws = Suc (draws st)\<rparr>)))
      else Some st)"

definition generateMaze :: "(nat \<Rightarrow> real) \<Rightarrow> int \<Rightarrow> int \<Rightarrow> (error + maze) option" where
  "generateMaze rnd nrows ncols =
     (let g = createGrid nrows ncols
      in case lookup g 0 0 of
           None \<Rightarrow> Some (Inl InvalidGridSize)
         | Some startCell \<Rightarrow>
             (case carve rnd \<lparr>grid = set_visited g startCell True, stack = [startCell], draws = 0\<rparr> of
                None \<Rightarrow> None
              | Some st \<Rightarrow>
                  Some (Inr \<lparr>rows = nrows, cols = ncols, cells = grid st,
                             start = (0, 0), end_pos = (nrows - 1, ncols - 1)\<rparr>)))"

section \<open>The passage graph of a grid\<close>

text \<open>
  Positions of the grid are pairs (row index, column index). \<open>east a b\<close>: \<open>b\<close> is the
  right-hand neighbour of \<open>a\<close>; \<open>south a b\<close>: \<open>b\<close> is the neighbour below \<open>a\<close>.
\<close>

definition east :: "ref \<Rightarrow> ref \<Rightarrow> bool" where
  "east a b \<longleftrightarrow> fst b = fst a \<and> snd b = snd a + 1"

definition south :: "ref \<Rightarrow> ref \<Rightarrow> bool" where
  "south a b \<longleftrightarrow> snd b = snd a \<and> fst b = fst a + 1"

definition grid_adjacent :: "ref \<Rightarrow> ref \<Rightarrow> bool" where
  "grid_adjacent a b \<longleftrightarrow> east a b \<or> east b a \<or> south a b \<or> south b a"

definition in_grid :: "nat \<Rightarrow> nat \<Rightarrow> ref \<Rightarrow> bool" where
  "in_grid R C p \<longleftrightarrow> fst p < R \<and> snd p < C"

definition in_cells :: "cell list list \<Rightarrow> ref \<Rightarrow> bool" where
  "in_cells g p \<longleftrightarrow> fst p < length g \<and> snd p < length (g ! fst p)"

text \<open>
  There is a passage between two adjacent cells when neither of them has a wall on the
  side that faces the other.
\<close>

definition passage :: "cell list list \<Rightarrow> ref \<Rightarrow> ref \<Rightarrow> bool" where
  "passage g a b \<longleftrightarrow>
     in_cells g a \<and> in_cells g b \<and>
     (east a b \<and> \<not> right (walls (deref g a)) \<and> \<not> left (walls (deref g b)) \<or>
      east b a \<and> \<not> left (walls (deref g a)) \<and> \<not> right (walls (deref g b)) \<or>
      south a b \<and> \<not> bottom (walls (deref g a)) \<and> \<not> top_wall (walls (deref g b)) \<or>
      south b a \<and> \<not> top_wall (walls (deref g a)) \<and> \<not> bottom (walls (deref g b)))"

text \<open>
  The edges of the full \<open>R \<times> C\<close> grid graph, each once: every cell with its right-hand
  neighbour, then every cell with the neighbour below it.
\<close>

definition grid_edges :: "nat \<Rightarrow> nat \<Rightarrow> (ref \<times> ref) list" where
  "grid_edges R C =
     map (\<lambda>p. (p, (fst p, snd p + 1))) (List.product [0..<R] [0..<C - 1]) @
     map (\<lambda>p. (p, (fst p + 1, snd p))) (List.product [0..<R - 1] [0..<C])"

text \<open>The removed-wall edges of a maze.\<close>

definition passages :: "maze \<Rightarrow> (ref \<times> ref) list" where
  "passages m =
     filter (\<lambda>e. passage (cells m) (fst e) (snd e)) (grid_edges (nat (rows m)) (nat (cols m)))"

text \<open>
  A simple path from \<open>a\<close> to \<open>b\<close> in a graph with adjacency \<open>adj\<close> is a list of distinct
  nodes that starts at \<open>a\<close>, ends at \<open>b\<close> and steps along edges. A cycle is a list of at
  least three distinct nodes that steps along edges and whose last node is adjacent to
  its first.
\<close>

definition spath :: "('a \<Rightarrow> 'a \<Rightarrow> bool) \<Rightarrow> 'a \<Rightarrow> 'a \<Rightarrow> 'a list \<Rightarrow> bool" where
  "spath adj a b p \<longleftrightarrow> p \<noteq> [] \<and> hd p = a \<and> last p = b \<and> distinct p \<and> successively adj p"

definition cycle :: "('a \<Rightarrow> 'a \<Rightarrow> bool) \<Rightarrow> 'a list \<Rightarrow> bool" where
  "cycle adj p \<longleftrightarrow> 3 \<le> length p \<and> distinct p \<and> successively adj p \<and> adj (last p) (hd p)"

definition simple_path :: "maze \<Rightarrow> ref \<Rightarrow> ref \<Rightarrow> ref list \<Rightarrow> bool" where
  "simple_path m a b p \<longleftrightarrow> spath (passage (cells m)) a b p"

definition maze_cell :: "maze \<Rightarrow> ref \<Rightarrow> bool" where
  "maze_cell m p \<longleftrightarrow> in_grid (nat (rows m)) (nat (cols m)) p"

text \<open>
  A tree on the node set \<open>V\<close>: edges are symmetric and join nodes of \<open>V\<close>, and any two
  nodes of \<open>V\<close> are joined by exactly one simple path.
\<close>

definition tree_on :: "'a set \<Rightarrow> ('a \<Rightarrow> 'a \<Rightarrow> bool) \<Rightarrow> bool" where
  "tree_on V adj \<longleftrightarrow>
     (\<forall>a b. adj a b \<longrightarrow> a \<in> V \<and> b \<in> V \<and> adj b a) \<and>
     (\<forall>a\<in>V. \<forall>b\<in>V. \<exists>!p. spath adj a b p)"

section \<open>The invariant of the carving loop\<close>

definition wf_grid :: "nat \<Rightarrow> nat \<Rightarrow> cell list list \<Rightarrow> bool" where
  "wf_grid R C g \<longleftrightarrow>
     length g = R \<and>
     (\<forall>i<R. length (g ! i) = C \<and>
        (\<forall>j<C. row (g ! i ! j) = int i \<and> col (g ! i ! j) = int j))"

definition vis :: "nat \<Rightarrow> nat \<Rightarrow> cell list list \<Rightarrow> ref set" where
  "vis R C g = {p. in_grid R C p \<and> visited (deref g p)}"

definition open_edges :: "nat \<Rightarrow> nat \<Rightarrow> cell list list \<Rightarrow> (ref \<times> ref) set" where
  "open_edges R C g = {e \<in> set (grid_edges R C). passage g (fst e) (snd e)}"

definition walls_symmetric :: "nat \<Rightarrow> nat \<Rightarrow> cell list list \<Rightarrow> bool" where
  "walls_symmetric R C g \<longleftrightarrow>
     (\<forall>a b. in_grid R C a \<and> in_grid R C b \<longrightarrow>
        (east a b \<longrightarrow> right (walls (deref g a)) = left (walls (deref g b))) \<and>
        (south a b \<longrightarrow> bottom (walls (deref g a)) = top_wall (walls (deref g b))))"

definition boundary_walls :: "nat \<Rightarrow> nat \<Rightarrow> cell list list \<Rightarrow> bool" where
  "boundary_walls R C g \<longleftrightarrow>
     (\<forall>p. in_grid R C p \<longrightarrow>
        (snd p = 0 \<longrightarrow> left (walls (deref g p))) \<and>
        (snd p = C - 1 \<longrightarrow> right (walls (deref g p))) \<and>
        (fst p = 0 \<longrightarrow> top_wall (walls (deref g p))) \<and>
        (fst p = R - 1 \<longrightarrow> bottom (walls (deref g p))))"

text \<open>
  Every visited cell that is no longer on the stack has all its grid neighbours visited.
\<close>

definition finished_off_stack :: "nat \<Rightarrow> nat \<Rightarrow> carve_state \<Rightarrow> bool" where
  "finished_off_stack R C st \<longleftrightarrow>
     (\<forall>a b. a \<in> vis R C (grid st) \<and> a \<notin> set (stack st) \<and> in_grid R C b \<and> grid_adjacent a b
        \<longrightarrow> b \<in> vis R C (grid st))"

definition carve_inv :: "nat \<Rightarrow> nat \<Rightarrow> carve_state \<Rightarrow> bool" where
  "carve_inv R C st \<longleftrightarrow>
     wf_grid R C (grid st) \<and>
     set (stack st) \<subseteq> vis R C (grid st) \<and>
     (0, 0) \<in> vis R C (grid st) \<and>
     finished_off_stack R C st \<and>
     walls_symmetric R C (grid st) \<and>
     boundary_walls R C (grid st) \<and>
     tree_on (vis R C (grid st)) (passage (grid st)) \<and>
     card (open_edges R C (grid st)) + 1 = card (vis R C (grid st))"

text \<open>One carving step: the grid after \<^verbatim>\<open>removeWallBetween(current, next); next.visited = true\<close>.\<close>

definition carved :: "cell list list \<Rightarrow> ref \<Rightarrow> ref \<Rightarrow> cell list list" where
  "carved g cur nxt = set_visited (removeWallBetween g cur nxt) nxt True"

text \<open>The contract of \<^verbatim>\<open>Math.random\<close>: every number drawn lies in \<open>[0, 1)\<close>.\<close>

definition unit_range :: "(nat \<Rightarrow> real) \<Rightarrow> bool" where
  "unit_range rnd \<longleftrightarrow> (\<forall>k. 0 \<le> rnd k \<and> rnd k < 1)"

section \<open>The carving loop with its history of pushes\<close>

text \<open>
  The same loop as \<open>carve\<close>, with one more variable that the source does not have: the
  list of the cells pushed so far, in the order of the calls of \<^verbatim>\<open>stack.push\<close>. No branch
  reads it. It starts as \<open>[startCell]\<close>, for the push of line 101.
\<close>

partial_function (option) carve_pushes ::
    "(nat \<Rightarrow> real) \<Rightarrow> carve_state \<Rightarrow> ref list \<Rightarrow> (carve_state \<times> ref list) option" where
  "carve_pushes rnd st pushed =
     (if length (stack st) > 0 then
        (case js_index (stack st) (int (length (stack st)) - 1) of
           None \<Rightarrow> Some (st, pushed)
         | Some current \<Rightarrow>
             (let neighbors = getUnvisitedNeighbors (grid st) current
              in if length neighbors = 0
                 then carve_pushes rnd (st\<lparr>stack := butlast (stack st)\<rparr>) pushed
                 else
                   (let randomIndex = random_index (rnd (draws st)) (length neighbors)
                    in case js_index neighbors randomIndex of
                         None \<Rightarrow> carve_pushes rnd (st\<lparr>draws := Suc (draws st)\<rparr>) pushed
                       | Some nxt \<Rightarrow>
                           carve_pushes rnd
                             \<lparr>grid = set_visited (removeWallBetween (grid st) current nxt) nxt True,
                              stack = stack st @ [nxt],
                              draws = Suc (draws st)\<rparr>
                             (pushed @ [nxt]))))
      else Some (st, pushed))"

text \<open>The state in which \<^verbatim>\<open>generateMaze\<close> enters the loop (lines 92 to 101).\<close>

definition carve_start :: "int \<Rightarrow> int \<Rightarrow> carve_state" where
  "carve_start nrows ncols =
     \<lparr>grid = set_visited (createGrid nrows ncols) (0, 0) True, stack = [(0, 0)], draws = 0\<rparr>"

section \<open>JavaScript numbers\<close>

text \<open>
  A JavaScript number is an IEEE 754 double: a finite value, \<open>Infinity\<close>, \<open>-Infinity\<close>
  or \<open>NaN\<close>. A finite double is modelled by the real number it denotes (the sign of a
  zero is not kept; it changes no product or sum computed below except the sign of a
  zero result). \<open>to_double\<close> rounds a real to the nearest double, ties to the even
  significand: the significand has 53 bits, the least exponent is \<open>-1022\<close> (below it the
  spacing stays \<open>2 powi (- 1074)\<close>), and a rounded magnitude of \<open>2 powi 1024\<close> or more is
  infinite.
  \<open>js_times\<close> and \<open>js_plus\<close> are the operators \<^verbatim>\<open>*\<close> and \<^verbatim>\<open>+\<close> on numbers: the exact
  result, rounded once.
\<close>

datatype js_number = Number real | Infinity | NegInfinity | NaN

definition round_half_even :: "real \<Rightarrow> int" where
  "round_half_even x =
     (let f = \<lfloor>x\<rfloor>; d = x - of_int f
      in if d < 1 / 2 then f else if 1 / 2 < d then f + 1 else if even f then f else f + 1)"

definition double_exponent :: "real \<Rightarrow> int" where
  "double_exponent x = max \<lfloor>log 2 \<bar>x\<bar>\<rfloor> (- 1022)"

definition to_double :: "real \<Rightarrow> js_number" where
  "to_double x =
     (if x = 0 then Number 0
      else
        (let q = 2 powi (double_exponent x - 52);
             y = of_int (round_half_even (x / q)) * q
         in if 2 powi 1024 \<le> y then Infinity
            else if y \<le> - (2 powi 1024) then NegInfinity
            else Number y))"

fun js_times :: "js_number \<Rightarrow> js_number \<Rightarrow> js_number" where
  "js_times NaN b = NaN"
| "js_times a NaN = NaN"
| "js_times (Number x) (Number y) = to_double (x * y)"
| "js_times (Number x) Infinity = (if x = 0 then NaN else if 0 < x then Infinity else NegInfinity)"
| "js_times (Number x) NegInfinity = (if x = 0 then NaN else if 0 < x then NegInfinity else Infinity)"
| "js_times Infinity (Number y) = (if y = 0 then NaN else if 0 < y then Infinity else NegInfinity)"
| "js_times NegInfinity (Number y) = (if y = 0 then NaN else if 0 < y then NegInfinity else Infinity)"
| "js_times Infinity Infinity = Infinity"
| "js_times Infinity NegInfinity = NegInfinity"
| "js_times NegInfinity Infinity = NegInfinity"
| "js_times NegInfinity NegInfinity = Infinity"

fun js_plus :: "js_number \<Rightarrow> js_number \<Rightarrow> js_number" where
  "js_plus NaN b = NaN"
| "js_plus a NaN = NaN"
| "js_plus (Number x) (Number y) = to_double (x + y)"
| "js_plus (Number x) Infinity = Infinity"
| "js_plus (Number x) NegInfinity = NegInfinity"
| "js_plus Infinity (Number y) = Infinity"
| "js_plus NegInfinity (Number y) = NegInfinity"
| "js_plus Infinity Infinity = Infinity"
| "js_plus NegInfinity NegInfinity = NegInfinity"
| "js_plus Infinity NegInfinity = NaN"
| "js_plus NegInfinity Infinity = NaN"

section \<open>\<^verbatim>\<open>getMazeDimensions\<close> of \<^verbatim>\<open>renderer.ts\<close>\<close>

text \<open>
  \<^verbatim>\<open>RenderOptions\<close>, and \<^verbatim>\<open>Partial<RenderOptions>\<close> as a record of optional fields
  (\<open>None\<close>: the key is absent). \<open>merge_options\<close> is the spread
  \<^verbatim>\<open>{ ...DEFAULT_OPTIONS, ...options }\<close>: a key of \<open>options\<close> overrides the default.
  The fields \<open>rows\<close> and \<open>cols\<close> of a maze are integers; as operands of \<^verbatim>\<open>*\<close> they are
  the numbers of the same value, which a double holds exactly up to \<open>2 ^ 53\<close> in
  magnitude.
\<close>

record RenderOptions =
  cellSize :: js_number
  wallThickness :: js_number
  wallColor :: string
  backgroundColor :: string
  startStarColor :: string
  endStarColor :: string

record PartialRenderOptions =
  cellSize_opt :: "js_number option"
  wallThickness_opt :: "js_number option"
  wallColor_opt :: "string option"
  backgroundColor_opt :: "string option"
  startStarColor_opt :: "string option"
  endStarColor_opt :: "string option"

record dimensions =
  width :: js_number
  height :: js_number

definition DEFAULT_OPTIONS :: RenderOptions where
  "DEFAULT_OPTIONS =
     \<lparr>cellSize = Number 20, wallThickness = Number 4, wallColor = ''#2c3e50'',
      backgroundColor = ''#ffffff'', startStarColor = ''#e74c3c'',
      endStarColor = ''#27ae60''\<rparr>"

definition merge_options :: "RenderOptions \<Rightarrow> PartialRenderOptions \<Rightarrow> RenderOptions" where
  "merge_options d options =
     \<lparr>cellSize = (case cellSize_opt options of None \<Rightarrow> cellSize d | Some v \<Rightarrow> v),
      wallThickness = (case wallThickness_opt options of None \<Rightarrow> wallThickness d | Some v \<Rightarrow> v),
      wallColor = (case wallColor_opt options of None \<Rightarrow> wallColor d | Some v \<Rightarrow> v),
      backgroundColor =
        (case backgroundColor_opt options of None \<Rightarrow> backgroundColor d | Some v \<Rightarrow> v),
      startStarColor =
        (case startStarColor_opt options of None \<Rightarrow> startStarColor d | Some v \<Rightarrow> v),
      endStarColor = (case endStarColor_opt options of None \<Rightarrow> endStarColor d | Some v \<Rightarrow> v)\<rparr>"

definition getMazeDimensions :: "maze \<Rightarrow> PartialRenderOptions \<Rightarrow> dimensions" where
  "getMazeDimensions m options =
     (let opts = merge_options DEFAULT_OPTIONS options;
          cs = cellSize opts;
          wt = wallThickness opts;
          w = js_plus (js_times (Number (of_int (cols m))) cs) wt;
          h = js_plus (js_times (Number (of_int (rows m))) cs) wt
      in \<lparr>width = w, height = h\<rparr>)"

text \<open>
  Values for the examples below: the grid before any carving as a maze value of the
  given size; the double that the literal \<^verbatim>\<open>0.1\<close> denotes; and options that give the
  cell size and the wall thickness and leave the colours out.
\<close>

definition uncarved_maze :: "int \<Rightarrow> int \<Rightarrow> maze" where
  "uncarved_maze nrows ncols =
     \<lparr>rows = nrows, cols = ncols, cells = createGrid nrows ncols,
      start = (0, 0), end_pos = (nrows - 1, ncols - 1)\<rparr>"

definition one_tenth :: real where
  "one_tenth = 3602879701896397 / 2 ^ 55"

definition size_options :: "js_number \<Rightarrow> js_number \<Rightarrow> PartialRenderOptions" where
  "size_options cs wt =
     \<lparr>cellSize_opt = Some cs, wallThickness_opt = Some wt, wallColor_opt = None,
      backgroundColor_opt = None, startStarColor_opt = None, endStarColor_opt = None\<rparr>"

section \<open>Two random sequences\<close>

text \<open>
  Two sequences that agree on their first three numbers: the first stays in \<open>[0, 1)\<close>,
  the second leaves it from the fourth number on.
\<close>

definition rnd_a :: "nat \<Rightarrow> real" where
  "rnd_a k = 1 / 2"

definition rnd_b :: "nat \<Rightarrow> real" where
  "rnd_b k = (if k < 3 then 1 / 2 else 7)"

section \<open>Simple paths and trees\<close>

lemma spath_single: "spath adj a a p \<Longrightarrow> p = [a]"
  unfolding spath_def
  by (cases p) (auto simp: last_conv_nth split: if_splits)

lemma spath_rev:
  assumes "\<And>x y. adj x y \<Longrightarrow> adj y x"
  shows "spath adj a b p \<longleftrightarrow> spath adj b a (rev p)"
proof -
  have "successively (\<lambda>x y. adj y x) p = successively adj p"
    by (rule successively_cong) (use assms in auto)
  then show ?thesis
    by (auto simp: spath_def hd_rev last_rev)
qed

lemma successively_restrict:
  assumes "\<And>x y. x \<in> set p \<Longrightarrow> y \<in> set p \<Longrightarrow> adj' x y = adj x y"
  shows "successively adj' p = successively adj p"
  by (rule successively_cong) (use assms in auto)

lemma successively_nodes:
  assumes "successively adj p" and "\<And>x y. adj x y \<Longrightarrow> x \<in> V \<and> y \<in> V" and "hd p \<in> V"
  shows "set p \<subseteq> V"
  using assms
  by (induction adj p rule: successively.induct) auto

lemma spath_nodes:
  assumes "spath adj a b p" and "\<And>x y. adj x y \<Longrightarrow> x \<in> V \<and> y \<in> V" and "a \<in> V"
  shows "set p \<subseteq> V"
  using assms successively_nodes[of adj p V] by (auto simp: spath_def)

text \<open>Adding a leaf n joined to c.\<close>

lemma leaf_endpoint:
  assumes p: "distinct p" "successively adj' p" and n: "n \<in> set p"
    and only: "\<And>x. adj' x n \<Longrightarrow> x = c" "\<And>x. adj' n x \<Longrightarrow> x = c"
  shows "hd p = n \<or> last p = n"
proof -
  from n obtain xs ys where s: "p = xs @ n # ys" by (auto dest: split_list)
  show ?thesis
  proof (cases "xs = [] \<or> ys = []")
    case True
    then show ?thesis using s by auto
  next
    case False
    then have "adj' (last xs) n" "adj' n (hd ys)"
      using p(2) s by (auto simp: successively_append_iff successively_Cons)
    then have "last xs = c" "hd ys = c" using only by auto
    moreover have "last xs \<in> set xs" "hd ys \<in> set ys" using False by auto
    ultimately show ?thesis using p(1) s by auto
  qed
qed

lemma tree_on_add_leaf:
  assumes t: "tree_on V adj" and c: "c \<in> V" and n: "n \<notin> V"
    and adj': "\<And>a b. adj' a b \<longleftrightarrow> adj a b \<or> (a = c \<and> b = n) \<or> (a = n \<and> b = c)"
  shows "tree_on (insert n V) adj'"
proof -
  have inV: "\<And>x y. adj x y \<Longrightarrow> x \<in> V \<and> y \<in> V" and sym: "\<And>x y. adj x y \<Longrightarrow> adj y x"
    and uniq: "\<And>a b. a \<in> V \<Longrightarrow> b \<in> V \<Longrightarrow> \<exists>!p. spath adj a b p"
    using t unfolding tree_on_def by blast+
  have sym': "adj' y x" if "adj' x y" for x y
    using that sym unfolding adj' by blast
  have cn: "c \<noteq> n" using c n by auto
  have only: "\<And>x. adj' x n \<Longrightarrow> x = c" "\<And>x. adj' n x \<Longrightarrow> x = c"
    unfolding adj' using inV n cn by blast+
  have old: "successively adj' p = successively adj p" if "n \<notin> set p" for p
    by (rule successively_restrict) (use that in \<open>auto simp: adj'\<close>)
  have oldpath: "spath adj' a b p \<longleftrightarrow> spath adj a b p" if "a \<in> V" "b \<in> V" for a b p
  proof
    assume h: "spath adj' a b p"
    have "n \<notin> set p"
    proof
      assume "n \<in> set p"
      then have "hd p = n \<or> last p = n"
        using leaf_endpoint[of p adj' n c] h only by (auto simp: spath_def)
      then show False using h that n by (auto simp: spath_def)
    qed
    then show "spath adj a b p" using h old by (auto simp: spath_def)
  next
    assume h: "spath adj a b p"
    then have "set p \<subseteq> V" using spath_nodes[of adj a b p V] inV that by blast
    then have "n \<notin> set p" using n by auto
    then show "spath adj' a b p" using h old by (auto simp: spath_def)
  qed
  have to_leaf: "\<exists>!p. spath adj' a n p" if a: "a \<in> V" for a
  proof -
    from uniq[OF a c] obtain q where q: "spath adj a c q" and qu: "\<And>q'. spath adj a c q' \<Longrightarrow> q' = q"
      by auto
    have qV: "set q \<subseteq> V" using spath_nodes[of adj a c q V] q inV a by blast
    then have nq: "n \<notin> set q" using n by auto
    have "spath adj' a n (q @ [n])"
      using q nq old[OF nq] by (auto simp: spath_def successively_append_iff adj')
    moreover have "p = q @ [n]" if p: "spath adj' a n p" for p
    proof -
      from p obtain ys y where split: "p = ys @ [y]"
        by (cases p rule: rev_cases) (auto simp: spath_def)
      have yn: "y = n" using p split by (simp add: spath_def)
      have hp: "hd (ys @ [n]) = a" and nb: "n \<notin> set ys" and dy: "distinct ys"
        and sp: "successively adj' (ys @ [n])"
        using p split yn by (auto simp: spath_def)
      have bne: "ys \<noteq> []"
      proof
        assume "ys = []"
        then show False using hp a n by auto
      qed
      have sb: "successively adj' ys" and lb: "adj' (last ys) n"
        using sp bne by (auto simp: successively_append_iff)
      have "last ys = c" using lb only by auto
      moreover have "hd ys = a" using hp bne by simp
      ultimately have "spath adj a c ys"
        using sb old[OF nb] bne dy by (auto simp: spath_def)
      then have "ys = q" using qu by auto
      then show ?thesis using split yn by simp
    qed
    ultimately show ?thesis by blast
  qed
  have from_leaf: "\<exists>!p. spath adj' n b p" if b: "b \<in> V" for b
  proof -
    from to_leaf[OF b] obtain q where q: "spath adj' b n q" and qu: "\<And>q'. spath adj' b n q' \<Longrightarrow> q' = q"
      by auto
    have r: "spath adj' x y p \<longleftrightarrow> spath adj' y x (rev p)" for x y p
      by (rule spath_rev) (rule sym')
    have "spath adj' n b (rev q)" using q r by blast
    moreover have "p = rev q" if "spath adj' n b p" for p
    proof -
      have "spath adj' b n (rev p)" using that r by blast
      then have "rev p = q" using qu by auto
      then show ?thesis by auto
    qed
    ultimately show ?thesis by blast
  qed
  have self: "\<exists>!p. spath adj' n n p"
  proof
    show "spath adj' n n [n]" by (simp add: spath_def)
  next
    fix p assume "spath adj' n n p" then show "p = [n]" by (rule spath_single)
  qed
  have all: "\<exists>!p. spath adj' a b p" if ab: "a \<in> insert n V" "b \<in> insert n V" for a b
  proof -
    consider "a = n" "b = n" | "a = n" "b \<in> V" | "a \<in> V" "b = n" | "a \<in> V" "b \<in> V"
      using ab by blast
    then show ?thesis
    proof cases
      case 1 then show ?thesis using self by simp
    next
      case 2 then show ?thesis using from_leaf by simp
    next
      case 3 then show ?thesis using to_leaf by simp
    next
      case 4
      have "spath adj' a b = spath adj a b" using oldpath[OF 4] by blast
      then show ?thesis using uniq[OF 4] by simp
    qed
  qed
  have edges: "\<forall>a b. adj' a b \<longrightarrow> a \<in> insert n V \<and> b \<in> insert n V \<and> adj' b a"
    unfolding adj' using inV sym c by blast
  show ?thesis
    unfolding tree_on_def
  proof (intro conjI ballI)
    show "\<forall>a b. adj' a b \<longrightarrow> a \<in> insert n V \<and> b \<in> insert n V \<and> adj' b a"
      by (rule edges)
  next
    fix a b
    assume "a \<in> insert n V" "b \<in> insert n V"
    then show "\<exists>!p. spath adj' a b p" by (rule all)
  qed
qed

lemma tree_on_no_cycle:
  assumes t: "tree_on V adj"
  shows "\<not> cycle adj p"
proof
  assume cy: "cycle adj p"
  then have len: "3 \<le> length p" and d: "distinct p" and s: "successively adj p"
    and closing: "adj (last p) (hd p)"
    by (auto simp: cycle_def)
  have pne: "p \<noteq> []" using len by auto
  have inV: "hd p \<in> V" "last p \<in> V" and fwd: "adj (hd p) (last p)"
    using t closing by (auto simp: tree_on_def)
  have neq: "hd p \<noteq> last p"
  proof -
    have "0 < length p" "length p - 1 < length p" "0 \<noteq> length p - 1"
      using len by auto
    then have "p ! 0 \<noteq> p ! (length p - 1)"
      using d nth_eq_iff_index_eq by blast
    then show ?thesis using pne by (simp add: hd_conv_nth last_conv_nth)
  qed
  have p1: "spath adj (hd p) (last p) p" using pne d s by (simp add: spath_def)
  have p2: "spath adj (hd p) (last p) [hd p, last p]" using neq fwd by (simp add: spath_def)
  have "\<exists>!q. spath adj (hd p) (last p) q" using t inV by (auto simp: tree_on_def)
  then have "p = [hd p, last p]" using p1 p2 by blast
  then have "length p = length [hd p, last p]" by simp
  then show False using len by simp
qed

subsection \<open>createGrid\<close>

declare createRow.simps [simp del] createRows.simps [simp del]

lemma createRow_eq: "createRow r ncols c rw = rw @ map (new_cell r) [c..ncols - 1]"
proof (induction r ncols c rw rule: createRow.induct)
  case (1 r ncols c rw)
  show ?case
  proof (cases "c < ncols")
    case True
    then have u: "[c..ncols - 1] = c # [c + 1..ncols - 1]" by (simp add: upto_rec1)
    have "createRow r ncols c rw = createRow r ncols (c + 1) (rw @ [new_cell r c])"
      using True by (subst createRow.simps) simp
    also have "\<dots> = (rw @ [new_cell r c]) @ map (new_cell r) [c + 1..ncols - 1]"
      using True by (rule 1)
    finally show ?thesis using u by simp
  next
    case False
    then have "createRow r ncols c rw = rw" by (subst createRow.simps) simp
    then show ?thesis using False by simp
  qed
qed

lemma createRows_eq:
  "createRows nrows ncols r g = g @ map (\<lambda>i. map (new_cell i) [0..ncols - 1]) [r..nrows - 1]"
proof (induction nrows ncols r g rule: createRows.induct)
  case (1 nrows ncols r g)
  show ?case
  proof (cases "r < nrows")
    case True
    then have u: "[r..nrows - 1] = r # [r + 1..nrows - 1]" by (simp add: upto_rec1)
    have "createRows nrows ncols r g = createRows nrows ncols (r + 1) (g @ [createRow r ncols 0 []])"
      using True by (subst createRows.simps) simp
    also have "\<dots> = (g @ [createRow r ncols 0 []]) @
        map (\<lambda>i. map (new_cell i) [0..ncols - 1]) [r + 1..nrows - 1]"
      using True by (rule 1)
    finally show ?thesis using u by (simp add: createRow_eq)
  next
    case False
    then have "createRows nrows ncols r g = g" by (subst createRows.simps) simp
    then show ?thesis using False by simp
  qed
qed

lemma createGrid_eq:
  "createGrid nrows ncols = map (\<lambda>i. map (new_cell i) [0..ncols - 1]) [0..nrows - 1]"
  by (simp add: createGrid_def createRows_eq)

lemma length_createGrid: "length (createGrid nrows ncols) = nat nrows"
  by (simp add: createGrid_eq)

lemma nth_createGrid:
  "i < nat nrows \<Longrightarrow> createGrid nrows ncols ! i = map (new_cell (int i)) [0..ncols - 1]"
  by (simp add: createGrid_eq)

lemma nth_upto0: "j < nat n \<Longrightarrow> [0..n - 1] ! j = int j"
proof -
  assume "j < nat n"
  then have "0 + int j \<le> n - 1" by linarith
  then have "[0..n - 1] ! j = 0 + int j" by (rule nth_upto)
  then show ?thesis by simp
qed

lemma deref_createGrid:
  "in_grid (nat nrows) (nat ncols) p \<Longrightarrow>
     deref (createGrid nrows ncols) p = new_cell (int (fst p)) (int (snd p))"
  by (simp add: deref_def in_grid_def nth_createGrid nth_upto0)

lemma wf_createGrid: "wf_grid (nat nrows) (nat ncols) (createGrid nrows ncols)"
proof -
  have "row (createGrid nrows ncols ! i ! j) = int i \<and> col (createGrid nrows ncols ! i ! j) = int j"
    if "i < nat nrows" "j < nat ncols" for i j
    using deref_createGrid[of nrows ncols "(i, j)"] that
    by (simp add: deref_def in_grid_def new_cell_def)
  moreover have "length (createGrid nrows ncols ! i) = nat ncols" if "i < nat nrows" for i
    using that by (simp add: nth_createGrid)
  ultimately show ?thesis
    unfolding wf_grid_def using length_createGrid by blast
qed

subsection \<open>Reading and writing cells\<close>

lemma in_cells_wf: "wf_grid R C g \<Longrightarrow> in_cells g p = in_grid R C p"
  by (auto simp: wf_grid_def in_cells_def in_grid_def)

lemma length_update_cell [simp]: "length (update_cell g p f) = length g"
  by (simp add: update_cell_def)

lemma length_nth_update_cell [simp]: "length (update_cell g p f ! i) = length (g ! i)"
  by (cases "fst p < length g"; cases "i = fst p") (simp_all add: update_cell_def list_update_beyond)

lemma in_cells_update_cell [simp]: "in_cells (update_cell g p f) q = in_cells g q"
  by (simp add: in_cells_def)

lemma deref_update_cell:
  "in_cells g p \<Longrightarrow> deref (update_cell g p f) q = (if q = p then f (deref g p) else deref g q)"
  by (cases "fst q = fst p"; cases "snd q = snd p")
     (auto simp: deref_def update_cell_def in_cells_def prod_eq_iff)

lemma wf_update_cell:
  assumes "wf_grid R C g" and "\<And>x. row (f x) = row x \<and> col (f x) = col x"
  shows "wf_grid R C (update_cell g p f)"
proof -
  have "row (update_cell g p f ! i ! j) = int i \<and> col (update_cell g p f ! i ! j) = int j"
    if "i < R" "j < C" for i j
  proof -
    have "in_cells g p \<or> update_cell g p f = g"
      by (cases "fst p < length g"; cases "snd p < length (g ! fst p)")
         (simp_all add: in_cells_def update_cell_def list_update_beyond)
    then show ?thesis
    proof
      assume "in_cells g p"
      then have "deref (update_cell g p f) (i, j) = (if (i, j) = p then f (deref g p) else deref g (i, j))"
        by (rule deref_update_cell)
      then show ?thesis using assms that by (auto simp: deref_def wf_grid_def)
    next
      assume "update_cell g p f = g"
      then show ?thesis using assms that by (simp add: wf_grid_def)
    qed
  qed
  then show ?thesis using assms(1) by (simp add: wf_grid_def)
qed

subsection \<open>getUnvisitedNeighbors\<close>

lemma lookup_wf:
  assumes "wf_grid R C g"
  shows "lookup g r c =
     (if 0 \<le> r \<and> r < int R \<and> 0 \<le> c \<and> c < int C then Some (nat r, nat c) else None)"
  using assms by (auto simp: lookup_def js_index_def wf_grid_def)

lemma set_push_unvisited:
  "set (push_unvisited g cand ns) =
     set ns \<union> (case cand of None \<Rightarrow> {} | Some x \<Rightarrow> if visited (deref g x) then {} else {x})"
  by (auto simp: push_unvisited_def split: option.splits)

lemma getUnvisitedNeighbors_set:
  assumes wf: "wf_grid R C g" and p: "in_grid R C p"
  shows "set (getUnvisitedNeighbors g p) =
     {q. in_grid R C q \<and> grid_adjacent p q \<and> \<not> visited (deref g q)}"
proof -
  obtain i j where pij: "p = (i, j)" by (cases p)
  have ij: "i < R" "j < C" using p pij by (auto simp: in_grid_def)
  have rc: "row (deref g p) = int i" "col (deref g p) = int j"
    using wf ij pij by (auto simp: wf_grid_def deref_def)
  have cols: "(case js_index g 0 of None \<Rightarrow> 0 | Some rw \<Rightarrow> int (length rw)) = int C"
    using wf ij by (auto simp: js_index_def wf_grid_def)
  have len: "int (length g) = int R" using wf by (simp add: wf_grid_def)
  define n1 where "n1 = (if int i > 0 then push_unvisited g (lookup g (int i - 1) (int j)) [] else [])"
  define n2 where "n2 = (if int i < int R - 1 then push_unvisited g (lookup g (int i + 1) (int j)) n1 else n1)"
  define n3 where "n3 = (if int j > 0 then push_unvisited g (lookup g (int i) (int j - 1)) n2 else n2)"
  define n4 where "n4 = (if int j < int C - 1 then push_unvisited g (lookup g (int i) (int j + 1)) n3 else n3)"
  have g4: "getUnvisitedNeighbors g p = n4"
    by (simp add: getUnvisitedNeighbors_def Let_def rc cols len n1_def n2_def n3_def n4_def)
  have s1: "set n1 = (if 0 < i \<and> \<not> visited (deref g (i - 1, j)) then {(i - 1, j)} else {})"
    using ij by (simp add: n1_def set_push_unvisited lookup_wf[OF wf] nat_diff_distrib)
  have s2: "set n2 = set n1 \<union>
      (if i + 1 < R \<and> \<not> visited (deref g (i + 1, j)) then {(i + 1, j)} else {})"
    using ij by (simp add: n2_def set_push_unvisited lookup_wf[OF wf] nat_add_distrib)
  have s3: "set n3 = set n2 \<union>
      (if 0 < j \<and> \<not> visited (deref g (i, j - 1)) then {(i, j - 1)} else {})"
    using ij by (simp add: n3_def set_push_unvisited lookup_wf[OF wf] nat_diff_distrib)
  have s4: "set n4 = set n3 \<union>
      (if j + 1 < C \<and> \<not> visited (deref g (i, j + 1)) then {(i, j + 1)} else {})"
    using ij by (simp add: n4_def set_push_unvisited lookup_wf[OF wf] nat_add_distrib)
  have "set (getUnvisitedNeighbors g p) =
      (if 0 < i \<and> \<not> visited (deref g (i - 1, j)) then {(i - 1, j)} else {}) \<union>
      (if i + 1 < R \<and> \<not> visited (deref g (i + 1, j)) then {(i + 1, j)} else {}) \<union>
      (if 0 < j \<and> \<not> visited (deref g (i, j - 1)) then {(i, j - 1)} else {}) \<union>
      (if j + 1 < C \<and> \<not> visited (deref g (i, j + 1)) then {(i, j + 1)} else {})"
    unfolding g4 s4 s3 s2 s1 ..
  also have "\<dots> = {q. in_grid R C q \<and> grid_adjacent p q \<and> \<not> visited (deref g q)}"
  proof (rule set_eqI)
    fix q :: ref
    obtain x y where q: "q = (x, y)" by (cases q)
    have m: "\<And>P a. (q \<in> (if P then {a} else {})) = (P \<and> q = a)" by simp
    have adj: "in_grid R C q \<and> grid_adjacent p q \<longleftrightarrow>
        (0 < i \<and> q = (i - 1, j)) \<or> (i + 1 < R \<and> q = (i + 1, j)) \<or>
        (0 < j \<and> q = (i, j - 1)) \<or> (j + 1 < C \<and> q = (i, j + 1))"
      unfolding q pij using ij
      by (simp add: in_grid_def grid_adjacent_def east_def south_def) arith
    show "q \<in> (if 0 < i \<and> \<not> visited (deref g (i - 1, j)) then {(i - 1, j)} else {}) \<union>
      (if i + 1 < R \<and> \<not> visited (deref g (i + 1, j)) then {(i + 1, j)} else {}) \<union>
      (if 0 < j \<and> \<not> visited (deref g (i, j - 1)) then {(i, j - 1)} else {}) \<union>
      (if j + 1 < C \<and> \<not> visited (deref g (i, j + 1)) then {(i, j + 1)} else {})
      \<longleftrightarrow> q \<in> {q. in_grid R C q \<and> grid_adjacent p q \<and> \<not> visited (deref g q)}"
      unfolding Un_iff m mem_Collect_eq conj_assoc[symmetric] adj by blast
  qed
  finally show ?thesis .
qed

subsection \<open>The field setters on a well-formed grid\<close>

lemma wf_set_top: "wf_grid R C g \<Longrightarrow> wf_grid R C (set_top g p b)"
  unfolding set_top_def by (rule wf_update_cell) simp_all

lemma wf_set_right: "wf_grid R C g \<Longrightarrow> wf_grid R C (set_right g p b)"
  unfolding set_right_def by (rule wf_update_cell) simp_all

lemma wf_set_bottom: "wf_grid R C g \<Longrightarrow> wf_grid R C (set_bottom g p b)"
  unfolding set_bottom_def by (rule wf_update_cell) simp_all

lemma wf_set_left: "wf_grid R C g \<Longrightarrow> wf_grid R C (set_left g p b)"
  unfolding set_left_def by (rule wf_update_cell) simp_all

lemma wf_set_visited: "wf_grid R C g \<Longrightarrow> wf_grid R C (set_visited g p b)"
  unfolding set_visited_def by (rule wf_update_cell) simp_all

lemmas wf_setters = wf_set_top wf_set_right wf_set_bottom wf_set_left wf_set_visited

lemmas deref_setters =
  deref_update_cell[where f = "\<lambda>x. x\<lparr>walls := (walls x)\<lparr>top_wall := b\<rparr>\<rparr>", folded set_top_def]
  deref_update_cell[where f = "\<lambda>x. x\<lparr>walls := (walls x)\<lparr>right := b\<rparr>\<rparr>", folded set_right_def]
  deref_update_cell[where f = "\<lambda>x. x\<lparr>walls := (walls x)\<lparr>bottom := b\<rparr>\<rparr>", folded set_bottom_def]
  deref_update_cell[where f = "\<lambda>x. x\<lparr>walls := (walls x)\<lparr>left := b\<rparr>\<rparr>", folded set_left_def]
  deref_update_cell[where f = "\<lambda>x. x\<lparr>visited := b\<rparr>", folded set_visited_def]
  for b

lemmas in_cells_setters =
  in_cells_update_cell[where f = "\<lambda>x. x\<lparr>walls := (walls x)\<lparr>top_wall := b\<rparr>\<rparr>", folded set_top_def]
  in_cells_update_cell[where f = "\<lambda>x. x\<lparr>walls := (walls x)\<lparr>right := b\<rparr>\<rparr>", folded set_right_def]
  in_cells_update_cell[where f = "\<lambda>x. x\<lparr>walls := (walls x)\<lparr>bottom := b\<rparr>\<rparr>", folded set_bottom_def]
  in_cells_update_cell[where f = "\<lambda>x. x\<lparr>walls := (walls x)\<lparr>left := b\<rparr>\<rparr>", folded set_left_def]
  in_cells_update_cell[where f = "\<lambda>x. x\<lparr>visited := b\<rparr>", folded set_visited_def]
  for b

subsection \<open>removeWallBetween on adjacent cells\<close>

lemma directions_exclusive:
  "east a b \<Longrightarrow> \<not> east b a \<and> \<not> south a b \<and> \<not> south b a"
  "south a b \<Longrightarrow> \<not> south b a \<and> \<not> east a b \<and> \<not> east b a"
  by (auto simp: east_def south_def)

lemma removeWallBetween_cases:
  assumes wf: "wf_grid R C g" and c: "in_grid R C cur" and n: "in_grid R C nxt"
  shows "east cur nxt \<Longrightarrow>
           removeWallBetween g cur nxt = set_left (set_right g cur False) nxt False"
    and "east nxt cur \<Longrightarrow>
           removeWallBetween g cur nxt = set_right (set_left g cur False) nxt False"
    and "south cur nxt \<Longrightarrow>
           removeWallBetween g cur nxt = set_top (set_bottom g cur False) nxt False"
    and "south nxt cur \<Longrightarrow>
           removeWallBetween g cur nxt = set_bottom (set_top g cur False) nxt False"
proof -
  have rc: "row (deref g cur) = int (fst cur)" "col (deref g cur) = int (snd cur)"
    "row (deref g nxt) = int (fst nxt)" "col (deref g nxt) = int (snd nxt)"
    using wf c n by (auto simp: wf_grid_def in_grid_def deref_def)
  show "east cur nxt \<Longrightarrow>
           removeWallBetween g cur nxt = set_left (set_right g cur False) nxt False"
    by (simp add: removeWallBetween_def rc east_def)
  show "east nxt cur \<Longrightarrow>
           removeWallBetween g cur nxt = set_right (set_left g cur False) nxt False"
    by (simp add: removeWallBetween_def rc east_def)
  show "south cur nxt \<Longrightarrow>
           removeWallBetween g cur nxt = set_top (set_bottom g cur False) nxt False"
    by (simp add: removeWallBetween_def rc south_def)
  show "south nxt cur \<Longrightarrow>
           removeWallBetween g cur nxt = set_bottom (set_top g cur False) nxt False"
    by (simp add: removeWallBetween_def rc south_def)
qed

lemma carved_cells:
  assumes wf: "wf_grid R C g" and c: "in_grid R C cur" and n: "in_grid R C nxt"
    and adj: "grid_adjacent cur nxt"
  shows "wf_grid R C (carved g cur nxt)"
    and "visited (deref (carved g cur nxt) p) = (visited (deref g p) \<or> p = nxt)"
    and "right (walls (deref (carved g cur nxt) p)) =
          (right (walls (deref g p)) \<and> \<not> (p = cur \<and> east cur nxt) \<and> \<not> (p = nxt \<and> east nxt cur))"
    and "left (walls (deref (carved g cur nxt) p)) =
          (left (walls (deref g p)) \<and> \<not> (p = cur \<and> east nxt cur) \<and> \<not> (p = nxt \<and> east cur nxt))"
    and "bottom (walls (deref (carved g cur nxt) p)) =
          (bottom (walls (deref g p)) \<and> \<not> (p = cur \<and> south cur nxt) \<and> \<not> (p = nxt \<and> south nxt cur))"
    and "top_wall (walls (deref (carved g cur nxt) p)) =
          (top_wall (walls (deref g p)) \<and> \<not> (p = cur \<and> south nxt cur) \<and> \<not> (p = nxt \<and> south cur nxt))"
proof -
  have ic: "in_cells g cur" "in_cells g nxt" using wf c n by (simp_all add: in_cells_wf)
  consider (e) "east cur nxt" | (w) "east nxt cur" | (s) "south cur nxt" | (n) "south nxt cur"
    using adj by (auto simp: grid_adjacent_def)
  then have "wf_grid R C (carved g cur nxt) \<and>
    (visited (deref (carved g cur nxt) p) = (visited (deref g p) \<or> p = nxt)) \<and>
    (right (walls (deref (carved g cur nxt) p)) =
          (right (walls (deref g p)) \<and> \<not> (p = cur \<and> east cur nxt) \<and> \<not> (p = nxt \<and> east nxt cur))) \<and>
    (left (walls (deref (carved g cur nxt) p)) =
          (left (walls (deref g p)) \<and> \<not> (p = cur \<and> east nxt cur) \<and> \<not> (p = nxt \<and> east cur nxt))) \<and>
    (bottom (walls (deref (carved g cur nxt) p)) =
          (bottom (walls (deref g p)) \<and> \<not> (p = cur \<and> south cur nxt) \<and> \<not> (p = nxt \<and> south nxt cur))) \<and>
    (top_wall (walls (deref (carved g cur nxt) p)) =
          (top_wall (walls (deref g p)) \<and> \<not> (p = cur \<and> south nxt cur) \<and> \<not> (p = nxt \<and> south cur nxt)))"
  proof cases
    case e
    then have ne: "cur \<noteq> nxt" by (auto simp: east_def)
    show ?thesis
      using wf ic e ne directions_exclusive(1)[OF e]
      by (simp add: carved_def removeWallBetween_cases(1)[OF wf c n e] wf_setters deref_setters in_cells_setters)
  next
    case w
    then have ne: "cur \<noteq> nxt" by (auto simp: east_def)
    show ?thesis
      using wf ic w ne directions_exclusive(1)[OF w]
      by (simp add: carved_def removeWallBetween_cases(2)[OF wf c n w] wf_setters deref_setters in_cells_setters)
  next
    case s
    then have ne: "cur \<noteq> nxt" by (auto simp: south_def)
    show ?thesis
      using wf ic s ne directions_exclusive(2)[OF s]
      by (simp add: carved_def removeWallBetween_cases(3)[OF wf c n s] wf_setters deref_setters in_cells_setters)
  next
    case n
    then have ne: "cur \<noteq> nxt" by (auto simp: south_def)
    show ?thesis
      using wf ic n ne directions_exclusive(2)[OF n]
      by (simp add: carved_def removeWallBetween_cases(4)[OF wf c \<open>in_grid R C nxt\<close> n] wf_setters deref_setters in_cells_setters)
  qed
  then show "wf_grid R C (carved g cur nxt)"
    and "visited (deref (carved g cur nxt) p) = (visited (deref g p) \<or> p = nxt)"
    and "right (walls (deref (carved g cur nxt) p)) =
          (right (walls (deref g p)) \<and> \<not> (p = cur \<and> east cur nxt) \<and> \<not> (p = nxt \<and> east nxt cur))"
    and "left (walls (deref (carved g cur nxt) p)) =
          (left (walls (deref g p)) \<and> \<not> (p = cur \<and> east nxt cur) \<and> \<not> (p = nxt \<and> east cur nxt))"
    and "bottom (walls (deref (carved g cur nxt) p)) =
          (bottom (walls (deref g p)) \<and> \<not> (p = cur \<and> south cur nxt) \<and> \<not> (p = nxt \<and> south nxt cur))"
    and "top_wall (walls (deref (carved g cur nxt) p)) =
          (top_wall (walls (deref g p)) \<and> \<not> (p = cur \<and> south nxt cur) \<and> \<not> (p = nxt \<and> south cur nxt))"
    by blast+
qed

subsection \<open>The effect of one carving step on the passage graph\<close>

lemma vis_carved:
  assumes "wf_grid R C g" "in_grid R C cur" "in_grid R C nxt" "grid_adjacent cur nxt"
  shows "vis R C (carved g cur nxt) = insert nxt (vis R C g)"
  using assms by (auto simp: vis_def carved_cells(2)[OF assms])

lemma east_functional:
  "east a b \<Longrightarrow> east a c \<Longrightarrow> b = c"
  "east a c \<Longrightarrow> east b c \<Longrightarrow> a = b"
  "south a b \<Longrightarrow> south a c \<Longrightarrow> b = c"
  "south a c \<Longrightarrow> south b c \<Longrightarrow> a = b"
  by (auto simp: east_def south_def prod_eq_iff)

lemma passage_carved:
  assumes wf: "wf_grid R C g" and c: "in_grid R C cur" and n: "in_grid R C nxt"
    and adj: "grid_adjacent cur nxt"
  shows "passage (carved g cur nxt) a b \<longleftrightarrow>
           passage g a b \<or> (a = cur \<and> b = nxt) \<or> (a = nxt \<and> b = cur)"
proof -
  note cc = carved_cells[OF wf c n adj]
  have ic: "in_cells (carved g cur nxt) p = in_cells g p" for p
    using cc(1) wf by (simp add: in_cells_wf)
  have icn: "in_cells g cur" "in_cells g nxt" using wf c n by (simp_all add: in_cells_wf)
  consider (e) "east cur nxt" | (w) "east nxt cur" | (s) "south cur nxt" | (n) "south nxt cur"
    using adj by (auto simp: grid_adjacent_def)
  then show ?thesis
  proof cases
    case e
    show ?thesis
      unfolding passage_def ic cc
      using e directions_exclusive(1)[OF e] icn east_functional
      by (simp only: HOL.simp_thms) blast
  next
    case w
    show ?thesis
      unfolding passage_def ic cc
      using w directions_exclusive(1)[OF w] icn east_functional
      by (simp only: HOL.simp_thms) blast
  next
    case s
    show ?thesis
      unfolding passage_def ic cc
      using s directions_exclusive(2)[OF s] icn east_functional
      by (simp only: HOL.simp_thms) blast
  next
    case n
    show ?thesis
      unfolding passage_def ic cc
      using n directions_exclusive(2)[OF n] icn east_functional
      by (simp only: HOL.simp_thms) blast
  qed
qed

subsection \<open>The edges of the grid graph\<close>

lemma set_grid_edges:
  "set (grid_edges R C) =
     {e. in_grid R C (fst e) \<and> in_grid R C (snd e) \<and> (east (fst e) (snd e) \<or> south (fst e) (snd e))}"
  by (auto simp: grid_edges_def in_grid_def east_def south_def image_iff)

lemma distinct_grid_edges: "distinct (grid_edges R C)"
proof -
  have "distinct (map (\<lambda>p. (p, (fst p, snd p + 1))) (List.product [0..<R] [0..<C - 1]))"
    by (simp add: distinct_map distinct_product inj_on_def)
  moreover have "distinct (map (\<lambda>p. (p, (fst p + 1, snd p))) (List.product [0..<R - 1] [0..<C]))"
    by (simp add: distinct_map distinct_product inj_on_def)
  ultimately show ?thesis
    by (auto simp: grid_edges_def)
qed

lemma length_grid_edges: "length (grid_edges R C) = R * (C - 1) + (R - 1) * C"
  by (simp add: grid_edges_def)

lemma finite_open_edges: "finite (open_edges R C g)"
  by (simp add: open_edges_def)

lemma length_filter_grid_edges:
  "length (filter (\<lambda>e. passage g (fst e) (snd e)) (grid_edges R C)) = card (open_edges R C g)"
proof -
  have "open_edges R C g = {e. passage g (fst e) (snd e)} \<inter> set (grid_edges R C)"
    by (auto simp: open_edges_def)
  then show ?thesis
    using distinct_length_filter[OF distinct_grid_edges, of "\<lambda>e. passage g (fst e) (snd e)" R C]
    by simp
qed

lemma forward_not_backward: "east a b \<or> south a b \<Longrightarrow> \<not> (east b a \<or> south b a)"
  by (auto simp: east_def south_def)

lemma card_open_edges_carved:
  assumes wf: "wf_grid R C g" and c: "in_grid R C cur" and n: "in_grid R C nxt"
    and adj: "grid_adjacent cur nxt"
    and closed: "\<not> passage g cur nxt" "\<not> passage g nxt cur"
  shows "card (open_edges R C (carved g cur nxt)) = card (open_edges R C g) + 1"
proof -
  define e where "e = (if east cur nxt \<or> south cur nxt then (cur, nxt) else (nxt, cur))"
  have mem: "e \<in> set (grid_edges R C)"
    using c n adj by (auto simp: e_def set_grid_edges grid_adjacent_def)
  have other: "x = e" if x: "x \<in> set (grid_edges R C)"
    and xe: "fst x = cur \<and> snd x = nxt \<or> fst x = nxt \<and> snd x = cur" for x
  proof -
    have fwd: "east (fst x) (snd x) \<or> south (fst x) (snd x)"
      using x by (simp add: set_grid_edges)
    from xe show ?thesis
    proof
      assume h: "fst x = cur \<and> snd x = nxt"
      then have "east cur nxt \<or> south cur nxt" using fwd by simp
      then have "e = (cur, nxt)" by (simp add: e_def)
      then show ?thesis using h by (simp add: prod_eq_iff)
    next
      assume h: "fst x = nxt \<and> snd x = cur"
      then have "east nxt cur \<or> south nxt cur" using fwd by simp
      then have "\<not> (east cur nxt \<or> south cur nxt)" by (rule forward_not_backward)
      then have "e = (nxt, cur)" by (simp add: e_def)
      then show ?thesis using h by (simp add: prod_eq_iff)
    qed
  qed
  have ends: "fst e = cur \<and> snd e = nxt \<or> fst e = nxt \<and> snd e = cur"
    by (simp add: e_def)
  have "open_edges R C (carved g cur nxt) = insert e (open_edges R C g)"
  proof (rule set_eqI)
    fix x
    show "x \<in> open_edges R C (carved g cur nxt) \<longleftrightarrow> x \<in> insert e (open_edges R C g)"
    proof (cases "x = e")
      case True
      then show ?thesis
        using mem ends by (simp add: open_edges_def passage_carved[OF wf c n adj])
    next
      case False
      then have "x \<in> set (grid_edges R C) \<Longrightarrow>
          \<not> (fst x = cur \<and> snd x = nxt \<or> fst x = nxt \<and> snd x = cur)"
        using other by blast
      then show ?thesis
        using False by (auto simp: open_edges_def passage_carved[OF wf c n adj])
    qed
  qed
  moreover have "e \<notin> open_edges R C g"
    using closed ends by (auto simp: open_edges_def)
  ultimately show ?thesis
    using finite_open_edges[of R C g] by simp
qed

subsection \<open>Wall symmetry and boundary walls under one carving step\<close>

lemma facing_sides:
  "east a b \<Longrightarrow> (a = x \<and> east x y) = (b = y \<and> east x y)"
  "south a b \<Longrightarrow> (a = x \<and> south x y) = (b = y \<and> south x y)"
  using east_functional by blast+

lemma walls_symmetric_carved:
  assumes wf: "wf_grid R C g" and c: "in_grid R C cur" and n: "in_grid R C nxt"
    and adj: "grid_adjacent cur nxt" and sym: "walls_symmetric R C g"
  shows "walls_symmetric R C (carved g cur nxt)"
proof -
  note cc = carved_cells[OF wf c n adj]
  have "right (walls (deref (carved g cur nxt) a)) = left (walls (deref (carved g cur nxt) b))"
    if "in_grid R C a" "in_grid R C b" "east a b" for a b
  proof -
    have "right (walls (deref g a)) = left (walls (deref g b))"
      using sym that unfolding walls_symmetric_def by blast
    then show ?thesis
      unfolding cc facing_sides(1)[OF that(3)] by blast
  qed
  moreover
  have "bottom (walls (deref (carved g cur nxt) a)) = top_wall (walls (deref (carved g cur nxt) b))"
    if "in_grid R C a" "in_grid R C b" "south a b" for a b
  proof -
    have "bottom (walls (deref g a)) = top_wall (walls (deref g b))"
      using sym that unfolding walls_symmetric_def by blast
    then show ?thesis
      unfolding cc facing_sides(2)[OF that(3)] by blast
  qed
  ultimately show ?thesis
    unfolding walls_symmetric_def by blast
qed

lemma boundary_walls_carved:
  assumes wf: "wf_grid R C g" and c: "in_grid R C cur" and n: "in_grid R C nxt"
    and adj: "grid_adjacent cur nxt" and bw: "boundary_walls R C g"
  shows "boundary_walls R C (carved g cur nxt)"
proof -
  have no: "\<not> (snd p = 0 \<and> ((p = cur \<and> east nxt cur) \<or> (p = nxt \<and> east cur nxt)))"
    "\<not> (snd p = C - 1 \<and> ((p = cur \<and> east cur nxt) \<or> (p = nxt \<and> east nxt cur)))"
    "\<not> (fst p = 0 \<and> ((p = cur \<and> south nxt cur) \<or> (p = nxt \<and> south cur nxt)))"
    "\<not> (fst p = R - 1 \<and> ((p = cur \<and> south cur nxt) \<or> (p = nxt \<and> south nxt cur)))"
    for p
    using c n by (auto simp: in_grid_def east_def south_def)
  show ?thesis
    using bw no
    unfolding boundary_walls_def carved_cells[OF wf c n adj]
    by blast
qed

subsection \<open>The visited set\<close>

lemma vis_subset: "vis R C g \<subseteq> {..<R} \<times> {..<C}"
  by (auto simp: vis_def in_grid_def)

lemma finite_vis: "finite (vis R C g)"
  by (rule finite_subset[OF vis_subset]) simp

lemma card_vis_le: "card (vis R C g) \<le> R * C"
  using card_mono[OF _ vis_subset, of R C g] by simp

lemma flood_fill:
  assumes origin: "(0, 0) \<in> V"
    and closed: "\<And>a b. a \<in> V \<Longrightarrow> in_grid R C b \<Longrightarrow> grid_adjacent a b \<Longrightarrow> b \<in> V"
    and p: "in_grid R C p"
  shows "p \<in> V"
proof -
  have row0: "j < C \<Longrightarrow> 0 < R \<Longrightarrow> (0, j) \<in> V" for j
  proof (induction j)
    case 0
    show ?case by (rule origin)
  next
    case (Suc j)
    then have "(0, j) \<in> V" by simp
    moreover have "in_grid R C (0, Suc j)" using Suc.prems by (simp add: in_grid_def)
    moreover have "grid_adjacent (0, j) (0, Suc j)" by (simp add: grid_adjacent_def east_def)
    ultimately show ?case by (rule closed)
  qed
  have any: "i < R \<Longrightarrow> j < C \<Longrightarrow> (i, j) \<in> V" for i j
  proof (induction i)
    case 0
    then show ?case using row0 by simp
  next
    case (Suc i)
    then have "(i, j) \<in> V" by simp
    moreover have "in_grid R C (Suc i, j)" using Suc.prems by (simp add: in_grid_def)
    moreover have "grid_adjacent (i, j) (Suc i, j)" by (simp add: grid_adjacent_def south_def)
    ultimately show ?case by (rule closed)
  qed
  show ?thesis using any[of "fst p" "snd p"] p by (simp add: in_grid_def)
qed

lemma carve_inv_done:
  assumes inv: "carve_inv R C st" and empty: "stack st = []"
  shows "vis R C (grid st) = {p. in_grid R C p}"
proof -
  have "p \<in> vis R C (grid st)" if "in_grid R C p" for p
  proof (rule flood_fill[OF _ _ that])
    show "(0, 0) \<in> vis R C (grid st)" using inv by (simp add: carve_inv_def)
  next
    fix a b
    assume "a \<in> vis R C (grid st)" "in_grid R C b" "grid_adjacent a b"
    moreover have "finished_off_stack R C st" using inv by (simp add: carve_inv_def)
    ultimately show "b \<in> vis R C (grid st)"
      unfolding finished_off_stack_def using empty by (metis empty_iff empty_set)
  qed
  then show ?thesis by (auto simp: vis_def)
qed

lemma card_in_grid: "card {p. in_grid R C p} = R * C"
proof -
  have "{p. in_grid R C p} = {..<R} \<times> {..<C}" by (auto simp: in_grid_def)
  then show ?thesis by simp
qed

subsection \<open>The invariant holds initially\<close>

lemma carve_inv_init:
  assumes "0 < nrows" "0 < ncols"
  shows "carve_inv (nat nrows) (nat ncols)
           \<lparr>grid = set_visited (createGrid nrows ncols) (0, 0) True, stack = [(0, 0)], draws = 0\<rparr>"
proof -
  let ?R = "nat nrows" and ?C = "nat ncols"
  let ?fresh = "createGrid nrows ncols"
  let ?g = "set_visited ?fresh (0, 0) True"
  have wf0: "wf_grid ?R ?C ?fresh" by (rule wf_createGrid)
  have o: "in_grid ?R ?C (0, 0)" using assms by (simp add: in_grid_def)
  have ic: "in_cells ?fresh (0, 0)" using o wf0 by (simp add: in_cells_wf)
  have wf: "wf_grid ?R ?C ?g" using wf0 by (rule wf_set_visited)
  have cellp: "deref ?g p = (if p = (0, 0) then (new_cell 0 0)\<lparr>visited := True\<rparr>
       else new_cell (int (fst p)) (int (snd p)))" if "in_grid ?R ?C p" for p
    using that o by (simp add: deref_setters(5)[OF ic] deref_createGrid)
  have walls0: "walls (deref ?g p) = \<lparr>top_wall = True, right = True, bottom = True, left = True\<rparr>"
    if "in_grid ?R ?C p" for p
    by (simp add: cellp[OF that] new_cell_def)
  have v: "vis ?R ?C ?g = {(0, 0)}"
  proof (rule set_eqI)
    fix p :: ref
    show "p \<in> vis ?R ?C ?g \<longleftrightarrow> p \<in> {(0, 0)}"
    proof (cases "in_grid ?R ?C p")
      case True
      then show ?thesis by (simp add: vis_def cellp[OF True] new_cell_def)
    next
      case False
      then show ?thesis using o by (auto simp: vis_def)
    qed
  qed
  have nopass: "\<not> passage ?g a b" for a b
  proof
    assume h: "passage ?g a b"
    then have "in_grid ?R ?C a" "in_grid ?R ?C b"
      using wf by (simp_all add: passage_def in_cells_wf)
    then have "walls (deref ?g a) = \<lparr>top_wall = True, right = True, bottom = True, left = True\<rparr>"
      "walls (deref ?g b) = \<lparr>top_wall = True, right = True, bottom = True, left = True\<rparr>"
      by (simp_all only: walls0)
    then show False using h by (simp add: passage_def)
  qed
  have tree: "tree_on {(0, 0)} (passage ?g)"
    unfolding tree_on_def
  proof (intro conjI ballI)
    show "\<forall>a b. passage ?g a b \<longrightarrow> a \<in> {(0, 0)} \<and> b \<in> {(0, 0)} \<and> passage ?g b a"
      using nopass by simp
  next
    fix a b :: ref
    assume "a \<in> {(0, 0)}" "b \<in> {(0, 0)}"
    then have ab: "a = (0, 0)" "b = (0, 0)" by simp_all
    show "\<exists>!p. spath (passage ?g) a b p"
    proof
      show "spath (passage ?g) a b [(0, 0)]" using ab by (simp add: spath_def)
    next
      fix p assume "spath (passage ?g) a b p"
      then show "p = [(0, 0)]" using ab spath_single by metis
    qed
  qed
  have edges: "open_edges ?R ?C ?g = {}" using nopass by (simp add: open_edges_def)
  have sym: "walls_symmetric ?R ?C ?g"
    unfolding walls_symmetric_def by (simp add: walls0)
  have bw: "boundary_walls ?R ?C ?g"
    unfolding boundary_walls_def by (simp add: walls0)
  have fin: "finished_off_stack ?R ?C \<lparr>grid = ?g, stack = [(0, 0)], draws = 0\<rparr>"
    by (simp add: finished_off_stack_def v)
  show ?thesis
    unfolding carve_inv_def using wf v tree edges sym bw fin by simp
qed

subsection \<open>The invariant is kept by a pop and by a push\<close>

lemma carve_inv_pop:
  assumes inv: "carve_inv R C st" and ne: "stack st \<noteq> []"
    and none: "getUnvisitedNeighbors (grid st) (last (stack st)) = []"
  shows "carve_inv R C (st\<lparr>stack := butlast (stack st)\<rparr>)"
proof -
  let ?g = "grid st"
  have wf: "wf_grid R C ?g" and sub: "set (stack st) \<subseteq> vis R C ?g"
    and fin: "finished_off_stack R C st"
    using inv by (simp_all add: carve_inv_def)
  have "last (stack st) \<in> vis R C ?g" using sub last_in_set[OF ne] by blast
  then have top: "in_grid R C (last (stack st))" by (simp add: vis_def)
  have done_top: "b \<in> vis R C ?g" if "in_grid R C b" "grid_adjacent (last (stack st)) b" for b
  proof -
    have "b \<notin> set (getUnvisitedNeighbors ?g (last (stack st)))" using none by simp
    then show ?thesis
      using that by (simp add: getUnvisitedNeighbors_set[OF wf top] vis_def)
  qed
  have "finished_off_stack R C (st\<lparr>stack := butlast (stack st)\<rparr>)"
    unfolding finished_off_stack_def
  proof (intro allI impI)
    fix a b
    assume h: "a \<in> vis R C (grid (st\<lparr>stack := butlast (stack st)\<rparr>)) \<and>
       a \<notin> set (stack (st\<lparr>stack := butlast (stack st)\<rparr>)) \<and>
       in_grid R C b \<and> grid_adjacent a b"
    have h': "a \<in> vis R C ?g" "a \<notin> set (butlast (stack st))" "in_grid R C b" "grid_adjacent a b"
      using h by simp_all
    have split: "set (stack st) = insert (last (stack st)) (set (butlast (stack st)))"
      using ne by (metis append_butlast_last_id list.simps(15) rotate1.simps(2) set_rotate1)
    show "b \<in> vis R C (grid (st\<lparr>stack := butlast (stack st)\<rparr>))"
    proof (cases "a = last (stack st)")
      case True
      then show ?thesis using h' done_top by simp
    next
      case False
      then have "a \<notin> set (stack st)" using h' split by simp
      then have "b \<in> vis R C ?g" using h' fin unfolding finished_off_stack_def by blast
      then show ?thesis by simp
    qed
  qed
  moreover have "set (butlast (stack st)) \<subseteq> vis R C ?g"
    using sub by (meson in_set_butlastD subset_iff)
  ultimately show ?thesis
    using inv by (simp add: carve_inv_def)
qed

lemma carve_inv_push:
  assumes inv: "carve_inv R C st" and ne: "stack st \<noteq> []"
    and nxt: "nxt \<in> set (getUnvisitedNeighbors (grid st) (last (stack st)))"
  shows "carve_inv R C
           \<lparr>grid = carved (grid st) (last (stack st)) nxt, stack = stack st @ [nxt], draws = d\<rparr>"
    and "card (vis R C (carved (grid st) (last (stack st)) nxt)) = card (vis R C (grid st)) + 1"
proof -
  let ?g = "grid st" and ?cur = "last (stack st)"
  let ?g' = "carved ?g ?cur nxt"
  have wf: "wf_grid R C ?g" and sub: "set (stack st) \<subseteq> vis R C ?g"
    and origin: "(0, 0) \<in> vis R C ?g"
    and fin: "finished_off_stack R C st"
    and sym: "walls_symmetric R C ?g" and bw: "boundary_walls R C ?g"
    and tree: "tree_on (vis R C ?g) (passage ?g)"
    and cnt: "card (open_edges R C ?g) + 1 = card (vis R C ?g)"
    using inv by (simp_all add: carve_inv_def)
  have curV: "?cur \<in> vis R C ?g" using sub last_in_set[OF ne] by blast
  then have c: "in_grid R C ?cur" by (simp add: vis_def)
  have n: "in_grid R C nxt" and adj: "grid_adjacent ?cur nxt" and unv: "\<not> visited (deref ?g nxt)"
    using nxt by (simp_all add: getUnvisitedNeighbors_set[OF wf c])
  have nV: "nxt \<notin> vis R C ?g" using unv by (simp add: vis_def)
  have closed: "\<not> passage ?g ?cur nxt" "\<not> passage ?g nxt ?cur"
    using tree nV unfolding tree_on_def by blast+
  have v': "vis R C ?g' = insert nxt (vis R C ?g)" by (rule vis_carved[OF wf c n adj])
  have wf': "wf_grid R C ?g'" by (rule carved_cells(1)[OF wf c n adj])
  have tree': "tree_on (vis R C ?g') (passage ?g')"
    unfolding v' by (rule tree_on_add_leaf[OF tree curV nV]) (rule passage_carved[OF wf c n adj])
  have card': "card (vis R C ?g') = card (vis R C ?g) + 1"
    unfolding v' using nV finite_vis[of R C ?g] by simp
  have cnt': "card (open_edges R C ?g') + 1 = card (vis R C ?g')"
    using card_open_edges_carved[OF wf c n adj closed] cnt card' by simp
  have fin': "finished_off_stack R C \<lparr>grid = ?g', stack = stack st @ [nxt], draws = d\<rparr>"
    unfolding finished_off_stack_def
  proof (intro allI impI)
    fix a b
    assume h: "a \<in> vis R C (grid \<lparr>grid = ?g', stack = stack st @ [nxt], draws = d\<rparr>) \<and>
       a \<notin> set (stack \<lparr>grid = ?g', stack = stack st @ [nxt], draws = d\<rparr>) \<and>
       in_grid R C b \<and> grid_adjacent a b"
    then have h': "a \<in> vis R C ?g'" "a \<notin> set (stack st)" "a \<noteq> nxt"
      "in_grid R C b" "grid_adjacent a b"
      by simp_all
    then have "a \<in> vis R C ?g" using v' by simp
    then have "b \<in> vis R C ?g" using h' fin unfolding finished_off_stack_def by blast
    then show "b \<in> vis R C (grid \<lparr>grid = ?g', stack = stack st @ [nxt], draws = d\<rparr>)"
      using v' by simp
  qed
  have sub': "set (stack st @ [nxt]) \<subseteq> vis R C ?g'" using sub v' by auto
  have origin': "(0, 0) \<in> vis R C ?g'" using origin v' by simp
  show "carve_inv R C \<lparr>grid = ?g', stack = stack st @ [nxt], draws = d\<rparr>"
    unfolding carve_inv_def
    using wf' sub' origin' fin' walls_symmetric_carved[OF wf c n adj sym]
      boundary_walls_carved[OF wf c n adj bw] tree' cnt'
    by simp
  show "card (vis R C ?g') = card (vis R C ?g) + 1" by (rule card')
qed

subsection \<open>The random index\<close>

lemma random_index_range:
  assumes "0 \<le> u" "u < 1" "0 < n"
  shows "0 \<le> random_index u n" and "random_index u n < int n"
proof -
  have "0 \<le> u * real n" using assms by simp
  then show "0 \<le> random_index u n" by (simp add: random_index_def)
  have "u * real n < real n" using assms by simp
  then show "random_index u n < int n" by (simp add: random_index_def floor_less_iff)
qed

subsection \<open>The three branches of the loop body\<close>

lemma nth_top: "xs \<noteq> [] \<Longrightarrow> xs ! nat (int (length xs) - 1) = last xs"
proof -
  assume ne: "xs \<noteq> []"
  then have "nat (int (length xs) - 1) = length xs - 1" by simp
  then show ?thesis using ne by (simp add: last_conv_nth)
qed

lemma top_of_stack:
  "xs \<noteq> [] \<Longrightarrow> js_index xs (int (length xs) - 1) = Some (last xs)"
  by (simp add: js_index_def nth_top Let_def)

lemma carve_empty: "stack st = [] \<Longrightarrow> carve rnd st = Some st"
  by (subst carve.simps) simp

lemma carve_pop:
  assumes "stack st \<noteq> []" and "getUnvisitedNeighbors (grid st) (last (stack st)) = []"
  shows "carve rnd st = carve rnd (st\<lparr>stack := butlast (stack st)\<rparr>)"
  using assms by (subst carve.simps) (simp add: top_of_stack)

lemma carve_push:
  assumes "stack st \<noteq> []"
    and "getUnvisitedNeighbors (grid st) (last (stack st)) = ns" and "ns \<noteq> []"
    and "0 \<le> random_index (rnd (draws st)) (length ns)"
    and "random_index (rnd (draws st)) (length ns) < int (length ns)"
  shows "carve rnd st =
     carve rnd \<lparr>grid = carved (grid st) (last (stack st))
                        (ns ! nat (random_index (rnd (draws st)) (length ns))),
                stack = stack st @ [ns ! nat (random_index (rnd (draws st)) (length ns))],
                draws = Suc (draws st)\<rparr>"
  using assms by (subst carve.simps) (simp add: js_index_def nth_top carved_def Let_def)

subsection \<open>Termination of the carving loop\<close>

lemma carve_total:
  assumes ur: "unit_range rnd"
  shows "carve_inv R C st \<Longrightarrow>
     \<exists>st'. carve rnd st = Some st' \<and> carve_inv R C st' \<and> stack st' = [] \<and>
           draws st' = draws st + (R * C - card (vis R C (grid st)))"
proof (induction "2 * (R * C - card (vis R C (grid st))) + length (stack st)"
    arbitrary: st rule: less_induct)
  case less
  note inv = less.prems
  show ?case
  proof (cases "stack st = []")
    case True
    have "card (vis R C (grid st)) = R * C"
      using carve_inv_done[OF inv True] card_in_grid by simp
    then show ?thesis using True inv carve_empty[OF True] by simp
  next
    case ne: False
    define ns where "ns = getUnvisitedNeighbors (grid st) (last (stack st))"
    show ?thesis
    proof (cases "ns = []")
      case True
      let ?st = "st\<lparr>stack := butlast (stack st)\<rparr>"
      have none: "getUnvisitedNeighbors (grid st) (last (stack st)) = []"
        using True by (simp add: ns_def)
      have inv': "carve_inv R C ?st" by (rule carve_inv_pop[OF inv ne none])
      have "2 * (R * C - card (vis R C (grid ?st))) + length (stack ?st)
          < 2 * (R * C - card (vis R C (grid st))) + length (stack st)"
        using ne by simp
      from less.hyps[OF this inv'] obtain st' where
        "carve rnd ?st = Some st'" "carve_inv R C st'" "stack st' = []"
        "draws st' = draws ?st + (R * C - card (vis R C (grid ?st)))"
        by blast
      then show ?thesis using carve_pop[OF ne none, of rnd] by simp
    next
      case False
      define k where "k = random_index (rnd (draws st)) (length ns)"
      have u: "0 \<le> rnd (draws st)" "rnd (draws st) < 1" using ur by (simp_all add: unit_range_def)
      have len: "0 < length ns" using False by simp
      have k: "0 \<le> k" "k < int (length ns)"
        unfolding k_def using random_index_range[OF u len] by simp_all
      define nxt where "nxt = ns ! nat k"
      let ?st = "\<lparr>grid = carved (grid st) (last (stack st)) nxt, stack = stack st @ [nxt],
                  draws = Suc (draws st)\<rparr>"
      have "nat k < length ns" using k by simp
      then have mem: "nxt \<in> set (getUnvisitedNeighbors (grid st) (last (stack st)))"
        unfolding nxt_def ns_def[symmetric] by (rule nth_mem)
      have inv': "carve_inv R C ?st" by (rule carve_inv_push(1)[OF inv ne mem])
      have card': "card (vis R C (grid ?st)) = card (vis R C (grid st)) + 1"
        using carve_inv_push(2)[OF inv ne mem] by simp
      have le: "card (vis R C (grid ?st)) \<le> R * C" by (rule card_vis_le)
      have "2 * (R * C - card (vis R C (grid ?st))) + length (stack ?st)
          < 2 * (R * C - card (vis R C (grid st))) + length (stack st)"
        using card' le by simp
      from less.hyps[OF this inv'] obtain st' where
        "carve rnd ?st = Some st'" "carve_inv R C st'" "stack st' = []"
        "draws st' = draws ?st + (R * C - card (vis R C (grid ?st)))"
        by blast
      moreover have "carve rnd st = carve rnd ?st"
        unfolding nxt_def k_def
        by (rule carve_push[where rnd = rnd, OF ne ns_def[symmetric] False k[unfolded k_def]])
      ultimately show ?thesis using card' le by simp
    qed
  qed
qed

subsection \<open>generateMaze\<close>

lemma lookup_origin:
  "lookup (createGrid nrows ncols) 0 0 = (if 0 < nrows \<and> 0 < ncols then Some (0, 0) else None)"
  by (simp add: lookup_wf[OF wf_createGrid])

lemma generateMaze_error: "nrows \<le> 0 \<or> ncols \<le> 0 \<Longrightarrow> generateMaze rnd nrows ncols = Some (Inl InvalidGridSize)"
  by (auto simp: generateMaze_def lookup_origin)

lemma generateMaze_no_error:
  "0 < nrows \<Longrightarrow> 0 < ncols \<Longrightarrow> generateMaze rnd nrows ncols \<noteq> Some (Inl e)"
  by (simp add: generateMaze_def lookup_origin split: option.splits)

lemma vis_init:
  assumes "0 < nrows" "0 < ncols"
  shows "vis (nat nrows) (nat ncols) (set_visited (createGrid nrows ncols) (0, 0) True) = {(0, 0)}"
proof (rule set_eqI)
  fix p :: ref
  let ?R = "nat nrows" and ?C = "nat ncols"
  let ?g = "set_visited (createGrid nrows ncols) (0, 0) True"
  have o: "in_grid ?R ?C (0, 0)" using assms by (simp add: in_grid_def)
  have ic: "in_cells (createGrid nrows ncols) (0, 0)"
    using o wf_createGrid[of nrows ncols] by (simp add: in_cells_wf)
  show "p \<in> vis ?R ?C ?g \<longleftrightarrow> p \<in> {(0, 0)}"
  proof (cases "in_grid ?R ?C p")
    case True
    then show ?thesis
      by (simp add: vis_def deref_setters(5)[OF ic] deref_createGrid new_cell_def)
  next
    case False
    then show ?thesis using o by (auto simp: vis_def)
  qed
qed

lemma generateMaze_returns:
  assumes ur: "unit_range rnd" and pos: "0 < nrows" "0 < ncols"
  obtains st where
    "generateMaze rnd nrows ncols =
       Some (Inr \<lparr>rows = nrows, cols = ncols, cells = grid st,
                  start = (0, 0), end_pos = (nrows - 1, ncols - 1)\<rparr>)"
    and "carve_inv (nat nrows) (nat ncols) st" and "stack st = []"
    and "vis (nat nrows) (nat ncols) (grid st) = {p. in_grid (nat nrows) (nat ncols) p}"
    and "draws st = nat nrows * nat ncols - 1"
proof -
  let ?init = "\<lparr>grid = set_visited (createGrid nrows ncols) (0, 0) True, stack = [(0, 0)], draws = 0\<rparr>"
  have inv0: "carve_inv (nat nrows) (nat ncols) ?init" by (rule carve_inv_init[OF pos])
  have c0: "card (vis (nat nrows) (nat ncols) (grid ?init)) = 1"
    by (simp add: vis_init[OF pos])
  from carve_total[OF ur inv0] obtain st where
    st: "carve rnd ?init = Some st" "carve_inv (nat nrows) (nat ncols) st" "stack st = []"
    "draws st = draws ?init + (nat nrows * nat ncols - card (vis (nat nrows) (nat ncols) (grid ?init)))"
    by blast
  have "generateMaze rnd nrows ncols =
       Some (Inr \<lparr>rows = nrows, cols = ncols, cells = grid st,
                  start = (0, 0), end_pos = (nrows - 1, ncols - 1)\<rparr>)"
    using pos st(1) by (simp add: generateMaze_def lookup_origin)
  moreover have "draws st = nat nrows * nat ncols - 1" using st(4) c0 by simp
  ultimately show ?thesis
    using that st(2,3) carve_inv_done[OF st(2,3)] by blast
qed

section \<open>Claims\<close>

text \<open>
  C10. When \<^verbatim>\<open>generateMaze(rows, cols)\<close> returns (\<open>rows > 0\<close>, \<open>cols > 0\<close>, the random
  numbers in \<open>[0, 1)\<close>), the grid of the returned maze has exactly \<open>rows\<close> rows of
  exactly \<open>cols\<close> cells, the cell at \<open>[r][c]\<close> has \<open>row = r\<close> and \<open>col = c\<close>, and the
  \<open>visited\<close> flag of every cell is true.
\<close>

theorem generateMaze_grid_well_formed:
  assumes "unit_range rnd" and "0 < nrows" and "0 < ncols"
  shows "\<exists>m. generateMaze rnd nrows ncols = Some (Inr m) \<and>
     length (cells m) = nat nrows \<and>
     (\<forall>r<nat nrows. length (cells m ! r) = nat ncols \<and>
        (\<forall>c<nat ncols. row (cells m ! r ! c) = int r \<and> col (cells m ! r ! c) = int c \<and>
           visited (cells m ! r ! c)))"
proof -
  from generateMaze_returns[OF assms] obtain st where
    gen: "generateMaze rnd nrows ncols =
       Some (Inr \<lparr>rows = nrows, cols = ncols, cells = grid st,
                  start = (0, 0), end_pos = (nrows - 1, ncols - 1)\<rparr>)"
    and inv: "carve_inv (nat nrows) (nat ncols) st"
    and all: "vis (nat nrows) (nat ncols) (grid st) = {p. in_grid (nat nrows) (nat ncols) p}"
    by blast
  have wf: "wf_grid (nat nrows) (nat ncols) (grid st)" using inv by (simp add: carve_inv_def)
  have v: "visited (grid st ! r ! c)" if "r < nat nrows" "c < nat ncols" for r c
  proof -
    have "(r, c) \<in> vis (nat nrows) (nat ncols) (grid st)"
      unfolding all using that by (simp add: in_grid_def)
    then show ?thesis by (simp add: vis_def deref_def)
  qed
  show ?thesis
    using gen wf v by (simp add: wf_grid_def)
qed

theorem generateMaze_grid_well_formed_witness:
  "unit_range (\<lambda>k. 0) \<and> (0::int) < 2 \<and> (0::int) < 3 \<and>
   (\<exists>m. generateMaze (\<lambda>k. 0) 2 3 = Some (Inr m) \<and> length (cells m) = 2 \<and>
        length (cells m ! 1) = 3 \<and> row (cells m ! 1 ! 2) = 1 \<and> col (cells m ! 1 ! 2) = 2 \<and>
        visited (cells m ! 1 ! 2))"
proof -
  have h: "unit_range (\<lambda>k. 0)" by (simp add: unit_range_def)
  from generateMaze_grid_well_formed[OF h, of 2 3] obtain m where
    m: "generateMaze (\<lambda>k. 0) 2 3 = Some (Inr m)" "length (cells m) = 2"
    "\<forall>r<2. length (cells m ! r) = 3 \<and>
        (\<forall>c<3. row (cells m ! r ! c) = int r \<and> col (cells m ! r ! c) = int c \<and>
           visited (cells m ! r ! c))"
    by auto
  from m(3) have "length (cells m ! 1) = 3 \<and> row (cells m ! 1 ! 2) = 1 \<and>
      col (cells m ! 1 ! 2) = 2 \<and> visited (cells m ! 1 ! 2)"
    by auto
  then show ?thesis using h m(1,2) by auto
qed

text \<open>
  C3. Wall symmetry: in every maze returned by \<^verbatim>\<open>generateMaze\<close>, for every pair of
  horizontally adjacent cells A at \<open>(r, c)\<close> and B at \<open>(r, c + 1)\<close> the flag \<open>right\<close> of A
  equals the flag \<open>left\<close> of B, and for every pair of vertically adjacent cells A at
  \<open>(r, c)\<close> and B at \<open>(r + 1, c)\<close> the flag \<open>bottom\<close> of A equals the flag \<open>top\<close> of B.
\<close>

theorem generateMaze_wall_symmetry:
  assumes "unit_range rnd" and "0 < nrows" and "0 < ncols"
  shows "\<exists>m. generateMaze rnd nrows ncols = Some (Inr m) \<and>
     (\<forall>r c. r < nat nrows \<and> c + 1 < nat ncols \<longrightarrow>
        right (walls (cells m ! r ! c)) = left (walls (cells m ! r ! (c + 1)))) \<and>
     (\<forall>r c. r + 1 < nat nrows \<and> c < nat ncols \<longrightarrow>
        bottom (walls (cells m ! r ! c)) = top_wall (walls (cells m ! (r + 1) ! c)))"
proof -
  from generateMaze_returns[OF assms] obtain st where
    gen: "generateMaze rnd nrows ncols =
       Some (Inr \<lparr>rows = nrows, cols = ncols, cells = grid st,
                  start = (0, 0), end_pos = (nrows - 1, ncols - 1)\<rparr>)"
    and inv: "carve_inv (nat nrows) (nat ncols) st"
    by blast
  have sym: "walls_symmetric (nat nrows) (nat ncols) (grid st)"
    using inv by (simp add: carve_inv_def)
  have h: "right (walls (grid st ! r ! c)) = left (walls (grid st ! r ! (c + 1)))"
    if "r < nat nrows" "c + 1 < nat ncols" for r c
  proof -
    have "in_grid (nat nrows) (nat ncols) (r, c)" "in_grid (nat nrows) (nat ncols) (r, c + 1)"
      "east (r, c) (r, c + 1)"
      using that by (simp_all add: in_grid_def east_def)
    then have "right (walls (deref (grid st) (r, c))) = left (walls (deref (grid st) (r, c + 1)))"
      using sym unfolding walls_symmetric_def by blast
    then show ?thesis by (simp add: deref_def)
  qed
  have v: "bottom (walls (grid st ! r ! c)) = top_wall (walls (grid st ! (r + 1) ! c))"
    if "r + 1 < nat nrows" "c < nat ncols" for r c
  proof -
    have "in_grid (nat nrows) (nat ncols) (r, c)" "in_grid (nat nrows) (nat ncols) (r + 1, c)"
      "south (r, c) (r + 1, c)"
      using that by (simp_all add: in_grid_def south_def)
    then have "bottom (walls (deref (grid st) (r, c))) = top_wall (walls (deref (grid st) (r + 1, c)))"
      using sym unfolding walls_symmetric_def by blast
    then show ?thesis by (simp add: deref_def)
  qed
  show ?thesis using gen h v by simp
qed

theorem generateMaze_wall_symmetry_witness:
  "unit_range (\<lambda>k. 1 / 2) \<and> (0::int) < 3 \<and>
   (\<exists>m. generateMaze (\<lambda>k. 1 / 2) 3 3 = Some (Inr m) \<and>
        right (walls (cells m ! 1 ! 0)) = left (walls (cells m ! 1 ! 1)) \<and>
        bottom (walls (cells m ! 1 ! 2)) = top_wall (walls (cells m ! 2 ! 2)))"
proof -
  have h: "unit_range (\<lambda>k. 1 / 2)" by (simp add: unit_range_def)
  from generateMaze_wall_symmetry[OF h, of 3 3] obtain m where
    m: "generateMaze (\<lambda>k. 1 / 2) 3 3 = Some (Inr m)"
    "\<forall>r c. r < 3 \<and> c + 1 < 3 \<longrightarrow>
        right (walls (cells m ! r ! c)) = left (walls (cells m ! r ! (c + 1)))"
    "\<forall>r c. r + 1 < 3 \<and> c < 3 \<longrightarrow>
        bottom (walls (cells m ! r ! c)) = top_wall (walls (cells m ! (r + 1) ! c))"
    by auto
  have "(1::nat) < 3 \<and> (0::nat) + 1 < 3" by simp
  from m(2)[rule_format, OF this]
  have e: "right (walls (cells m ! 1 ! 0)) = left (walls (cells m ! 1 ! 1))"
    by (simp only: add_0)
  have "(1::nat) + 1 < 3 \<and> (2::nat) < 3" by simp
  from m(3)[rule_format, OF this]
  have "bottom (walls (cells m ! 1 ! 2)) = top_wall (walls (cells m ! 2 ! 2))"
    by (simp only: one_add_one)
  with e show ?thesis using h m(1) by auto
qed

text \<open>
  C4. Boundary walls are preserved: in every maze returned by \<^verbatim>\<open>generateMaze\<close>, every
  cell of column 0 has its \<open>left\<close> wall, every cell of column \<open>cols - 1\<close> its \<open>right\<close> wall,
  every cell of row 0 its \<open>top\<close> wall and every cell of row \<open>rows - 1\<close> its \<open>bottom\<close> wall.
\<close>

theorem generateMaze_boundary_walls:
  assumes "unit_range rnd" and "0 < nrows" and "0 < ncols"
  shows "\<exists>m. generateMaze rnd nrows ncols = Some (Inr m) \<and>
     (\<forall>r<nat nrows. left (walls (cells m ! r ! 0)) \<and>
                     right (walls (cells m ! r ! (nat ncols - 1)))) \<and>
     (\<forall>c<nat ncols. top_wall (walls (cells m ! 0 ! c)) \<and>
                     bottom (walls (cells m ! (nat nrows - 1) ! c)))"
proof -
  from generateMaze_returns[OF assms] obtain st where
    gen: "generateMaze rnd nrows ncols =
       Some (Inr \<lparr>rows = nrows, cols = ncols, cells = grid st,
                  start = (0, 0), end_pos = (nrows - 1, ncols - 1)\<rparr>)"
    and inv: "carve_inv (nat nrows) (nat ncols) st"
    by blast
  have bw: "boundary_walls (nat nrows) (nat ncols) (grid st)"
    using inv by (simp add: carve_inv_def)
  have side: "left (walls (grid st ! r ! 0)) \<and> right (walls (grid st ! r ! (nat ncols - 1)))"
    if "r < nat nrows" for r
  proof -
    have "in_grid (nat nrows) (nat ncols) (r, 0)" "in_grid (nat nrows) (nat ncols) (r, nat ncols - 1)"
      using that assms by (simp_all add: in_grid_def)
    then have "left (walls (deref (grid st) (r, 0)))"
      "right (walls (deref (grid st) (r, nat ncols - 1)))"
      using bw unfolding boundary_walls_def by (metis snd_conv)+
    then show ?thesis by (simp add: deref_def)
  qed
  have ends: "top_wall (walls (grid st ! 0 ! c)) \<and> bottom (walls (grid st ! (nat nrows - 1) ! c))"
    if "c < nat ncols" for c
  proof -
    have "in_grid (nat nrows) (nat ncols) (0, c)" "in_grid (nat nrows) (nat ncols) (nat nrows - 1, c)"
      using that assms by (simp_all add: in_grid_def)
    then have "top_wall (walls (deref (grid st) (0, c)))"
      "bottom (walls (deref (grid st) (nat nrows - 1, c)))"
      using bw unfolding boundary_walls_def by (metis fst_conv)+
    then show ?thesis by (simp add: deref_def)
  qed
  show ?thesis using gen side ends by simp
qed

theorem generateMaze_boundary_walls_witness:
  "unit_range (\<lambda>k. 3 / 4) \<and> (0::int) < 2 \<and>
   (\<exists>m. generateMaze (\<lambda>k. 3 / 4) 2 2 = Some (Inr m) \<and>
        left (walls (cells m ! 1 ! 0)) \<and> right (walls (cells m ! 1 ! 1)) \<and>
        top_wall (walls (cells m ! 0 ! 1)) \<and> bottom (walls (cells m ! 1 ! 1)))"
proof -
  have h: "unit_range (\<lambda>k. 3 / 4)" by (simp add: unit_range_def)
  from generateMaze_boundary_walls[OF h, of 2 2] obtain m where
    m: "generateMaze (\<lambda>k. 3 / 4) 2 2 = Some (Inr m)"
    "\<forall>r<2. left (walls (cells m ! r ! 0)) \<and> right (walls (cells m ! r ! (2 - 1)))"
    "\<forall>c<2. top_wall (walls (cells m ! 0 ! c)) \<and> bottom (walls (cells m ! (2 - 1) ! c))"
    by auto
  have "left (walls (cells m ! 1 ! 0)) \<and> right (walls (cells m ! 1 ! (2 - 1)))"
    using m(2) by simp
  moreover have "top_wall (walls (cells m ! 0 ! 1)) \<and> bottom (walls (cells m ! (2 - 1) ! 1))"
    using m(3) by simp
  ultimately show ?thesis using h m(1) by auto
qed

subsection \<open>The finished maze is a spanning tree\<close>

lemma finished_tree:
  assumes inv: "carve_inv R C st" and empty: "stack st = []" and pos: "0 < R" "0 < C"
  shows "\<And>a b. in_grid R C a \<Longrightarrow> in_grid R C b \<Longrightarrow> \<exists>!p. spath (passage (grid st)) a b p"
    and "\<And>p. \<not> cycle (passage (grid st)) p"
    and "card (open_edges R C (grid st)) + 1 = R * C"
proof -
  have all: "vis R C (grid st) = {p. in_grid R C p}" by (rule carve_inv_done[OF inv empty])
  have tree: "tree_on {p. in_grid R C p} (passage (grid st))"
    using inv unfolding carve_inv_def all by blast
  show "\<exists>!p. spath (passage (grid st)) a b p" if "in_grid R C a" "in_grid R C b" for a b
  proof -
    have "a \<in> {p. in_grid R C p}" "b \<in> {p. in_grid R C p}" using that by simp_all
    then show ?thesis using tree unfolding tree_on_def by blast
  qed
  show "\<not> cycle (passage (grid st)) p" for p
    by (rule tree_on_no_cycle[OF tree])
  have "card (open_edges R C (grid st)) + 1 = card (vis R C (grid st))"
    using inv by (simp add: carve_inv_def)
  then show "card (open_edges R C (grid st)) + 1 = R * C"
    unfolding all card_in_grid .
qed

lemma generateMaze_finished:
  assumes "unit_range rnd" and "0 < nrows" and "0 < ncols"
  obtains m st where "generateMaze rnd nrows ncols = Some (Inr m)"
    and "rows m = nrows" and "cols m = ncols" and "cells m = grid st"
    and "start m = (0, 0)" and "end_pos m = (nrows - 1, ncols - 1)"
    and "carve_inv (nat nrows) (nat ncols) st" and "stack st = []"
proof -
  from generateMaze_returns[OF assms] obtain st where
    gen: "generateMaze rnd nrows ncols =
       Some (Inr \<lparr>rows = nrows, cols = ncols, cells = grid st,
                  start = (0, 0), end_pos = (nrows - 1, ncols - 1)\<rparr>)"
    and inv: "carve_inv (nat nrows) (nat ncols) st" and empty: "stack st = []"
    by blast
  show ?thesis
    by (rule that[OF gen _ _ _ _ _ inv empty]) simp_all
qed

text \<open>
  C1. For every \<open>rows > 0\<close> and \<open>cols > 0\<close> and every sequence of random numbers (in
  \<open>[0, 1)\<close>), \<^verbatim>\<open>generateMaze(rows, cols)\<close> returns a perfect maze: with the cells as
  nodes and "no wall between two adjacent cells" as edges, any two cells are joined by
  a path (connected), there is no cycle, there are exactly \<open>rows * cols - 1\<close> edges, and
  there is exactly one simple path between any two cells.
\<close>

theorem generateMaze_perfect_maze:
  assumes "unit_range rnd" and "0 < nrows" and "0 < ncols"
  shows "\<exists>m. generateMaze rnd nrows ncols = Some (Inr m) \<and>
     (\<forall>a b. maze_cell m a \<and> maze_cell m b \<longrightarrow> (\<exists>p. simple_path m a b p)) \<and>
     (\<forall>p. \<not> cycle (passage (cells m)) p) \<and>
     int (length (passages m)) = nrows * ncols - 1 \<and>
     (\<forall>a b. maze_cell m a \<and> maze_cell m b \<longrightarrow> (\<exists>!p. simple_path m a b p))"
proof -
  from generateMaze_finished[OF assms] obtain m st where
    gen: "generateMaze rnd nrows ncols = Some (Inr m)"
    and m: "rows m = nrows" "cols m = ncols" "cells m = grid st"
    and inv: "carve_inv (nat nrows) (nat ncols) st" and empty: "stack st = []"
    by blast
  have pos: "0 < nat nrows" "0 < nat ncols" using assms by simp_all
  note ft = finished_tree[OF inv empty pos]
  have uniq: "\<exists>!p. simple_path m a b p" if "maze_cell m a" "maze_cell m b" for a b
    using ft(1)[of a b] that unfolding simple_path_def maze_cell_def m by simp
  have conn: "\<exists>p. simple_path m a b p" if "maze_cell m a" "maze_cell m b" for a b
  proof -
    from uniq[OF that] obtain p where "simple_path m a b p" by (rule ex1E)
    then show ?thesis ..
  qed
  have acyc: "\<not> cycle (passage (cells m)) p" for p
    unfolding m by (rule ft(2))
  have "length (passages m) = card (open_edges (nat nrows) (nat ncols) (grid st))"
    unfolding passages_def m by (rule length_filter_grid_edges)
  then have "length (passages m) + 1 = nat nrows * nat ncols" using ft(3) by simp
  then have "int (length (passages m)) + 1 = int (nat nrows * nat ncols)" by linarith
  also have "\<dots> = nrows * ncols" using assms by simp
  finally have cnt: "int (length (passages m)) = nrows * ncols - 1" by simp
  show ?thesis
  proof (rule exI[of _ m], intro conjI)
    show "generateMaze rnd nrows ncols = Some (Inr m)" by (rule gen)
    show "\<forall>a b. maze_cell m a \<and> maze_cell m b \<longrightarrow> (\<exists>p. simple_path m a b p)"
      using conn by blast
    show "\<forall>p. \<not> cycle (passage (cells m)) p" using acyc by blast
    show "int (length (passages m)) = nrows * ncols - 1" by (rule cnt)
    show "\<forall>a b. maze_cell m a \<and> maze_cell m b \<longrightarrow> (\<exists>!p. simple_path m a b p)"
    proof (intro allI impI)
      fix a b
      assume "maze_cell m a \<and> maze_cell m b"
      then have "maze_cell m a" "maze_cell m b" by simp_all
      then show "\<exists>!p. simple_path m a b p" by (rule uniq)
    qed
  qed
qed

theorem generateMaze_perfect_maze_witness:
  "unit_range (\<lambda>k. 1 / 3) \<and> (0::int) < 2 \<and> (0::int) < 3 \<and>
   (\<exists>m. generateMaze (\<lambda>k. 1 / 3) 2 3 = Some (Inr m) \<and> length (passages m) = 5)"
proof -
  have h: "unit_range (\<lambda>k. 1 / 3)" by (simp add: unit_range_def)
  from generateMaze_perfect_maze[OF h, of 2 3] obtain m where
    m: "generateMaze (\<lambda>k. 1 / 3) 2 3 = Some (Inr m)" "int (length (passages m)) = 2 * 3 - 1"
    by auto
  from m(2) have "length (passages m) = 5" by simp
  then show ?thesis using h m(1) by auto
qed

subsection \<open>Grids in which every edge must be open\<close>

lemma filter_full:
  assumes "length (filter P xs) = length xs" and "x \<in> set xs"
  shows "P x"
proof -
  have "length (filter P xs) + length (filter (\<lambda>y. \<not> P y) xs) = length xs"
    by (rule sum_length_filter_compl)
  then have "filter (\<lambda>y. \<not> P y) xs = []" using assms(1) by simp
  then show ?thesis using assms(2) by (simp add: filter_empty_conv)
qed

lemma corridor_open:
  assumes inv: "carve_inv R C st" and empty: "stack st = []" and pos: "0 < R" "0 < C"
    and line: "R = 1 \<or> C = 1"
    and e: "e \<in> set (grid_edges R C)"
  shows "passage (grid st) (fst e) (snd e)"
proof -
  have "card (open_edges R C (grid st)) + 1 = R * C"
    by (rule finished_tree(3)[OF inv empty pos])
  moreover have "length (grid_edges R C) + 1 = R * C"
    using line pos by (auto simp: length_grid_edges)
  ultimately have "length (filter (\<lambda>e. passage (grid st) (fst e) (snd e)) (grid_edges R C))
      = length (grid_edges R C)"
    by (simp add: length_filter_grid_edges)
  then show ?thesis using e by (rule filter_full)
qed

lemma passage_east:
  assumes "passage g a b" and "east a b"
  shows "\<not> right (walls (deref g a)) \<and> \<not> left (walls (deref g b))"
  using assms directions_exclusive(1)[OF assms(2)] by (simp add: passage_def)

lemma passage_south:
  assumes "passage g a b" and "south a b"
  shows "\<not> bottom (walls (deref g a)) \<and> \<not> top_wall (walls (deref g b))"
  using assms directions_exclusive(2)[OF assms(2)] by (simp add: passage_def)

text \<open>
  C5. Degenerate sizes: for every \<open>n > 0\<close> and every random sequence,
  \<^verbatim>\<open>generateMaze(1, n)\<close> and \<^verbatim>\<open>generateMaze(n, 1)\<close> return a single connected corridor:
  no wall remains between consecutive cells, and the walls along both long edges are
  intact (all \<open>top\<close> and \<open>bottom\<close> walls of a one-row maze, all \<open>left\<close> and \<open>right\<close> walls
  of a one-column maze).
\<close>

theorem generateMaze_corridor:
  assumes "unit_range rnd" and "0 < n"
  shows "(\<exists>m. generateMaze rnd 1 n = Some (Inr m) \<and>
       (\<forall>a b. maze_cell m a \<and> maze_cell m b \<longrightarrow> (\<exists>p. simple_path m a b p)) \<and>
       (\<forall>c. c + 1 < nat n \<longrightarrow>
          \<not> right (walls (cells m ! 0 ! c)) \<and> \<not> left (walls (cells m ! 0 ! (c + 1)))) \<and>
       (\<forall>c<nat n. top_wall (walls (cells m ! 0 ! c)) \<and> bottom (walls (cells m ! 0 ! c)))) \<and>
     (\<exists>m. generateMaze rnd n 1 = Some (Inr m) \<and>
       (\<forall>a b. maze_cell m a \<and> maze_cell m b \<longrightarrow> (\<exists>p. simple_path m a b p)) \<and>
       (\<forall>r. r + 1 < nat n \<longrightarrow>
          \<not> bottom (walls (cells m ! r ! 0)) \<and> \<not> top_wall (walls (cells m ! (r + 1) ! 0))) \<and>
       (\<forall>r<nat n. left (walls (cells m ! r ! 0)) \<and> right (walls (cells m ! r ! 0))))"
proof (rule conjI)
  have one: "(0::int) < 1" by simp
  from generateMaze_finished[OF assms(1) one assms(2)] obtain m st where
    gen: "generateMaze rnd 1 n = Some (Inr m)"
    and m: "rows m = 1" "cols m = n" "cells m = grid st"
    and inv: "carve_inv (nat 1) (nat n) st" and empty: "stack st = []"
    by blast
  have pos: "0 < nat 1" "0 < nat n" using assms by simp_all
  have conn: "\<exists>p. simple_path m a b p" if "maze_cell m a" "maze_cell m b" for a b
  proof -
    from finished_tree(1)[OF inv empty pos, of a b] that
    obtain p where "spath (passage (grid st)) a b p"
      unfolding maze_cell_def m by blast
    then show ?thesis unfolding simple_path_def m ..
  qed
  have inner: "\<not> right (walls (cells m ! 0 ! c)) \<and> \<not> left (walls (cells m ! 0 ! (c + 1)))"
    if "c + 1 < nat n" for c
  proof -
    have "((0, c), (0, c + 1)) \<in> set (grid_edges (nat 1) (nat n))"
      using that by (simp add: set_grid_edges in_grid_def east_def)
    then have "passage (grid st) (0, c) (0, c + 1)"
      using corridor_open[OF inv empty pos] by fastforce
    moreover have "east (0, c) (0, c + 1)" by (simp add: east_def)
    ultimately show ?thesis unfolding m using passage_east by (fastforce simp: deref_def)
  qed
  have bw: "boundary_walls (nat 1) (nat n) (grid st)" using inv by (simp add: carve_inv_def)
  have outer: "top_wall (walls (cells m ! 0 ! c)) \<and> bottom (walls (cells m ! 0 ! c))"
    if "c < nat n" for c
  proof -
    have "in_grid (nat 1) (nat n) (0, c)" using that by (simp add: in_grid_def)
    then have "top_wall (walls (deref (grid st) (0, c)))" "bottom (walls (deref (grid st) (0, c)))"
      using bw unfolding boundary_walls_def by (simp_all del: nat_1)
    then show ?thesis unfolding m by (simp add: deref_def)
  qed
  show "\<exists>m. generateMaze rnd 1 n = Some (Inr m) \<and>
       (\<forall>a b. maze_cell m a \<and> maze_cell m b \<longrightarrow> (\<exists>p. simple_path m a b p)) \<and>
       (\<forall>c. c + 1 < nat n \<longrightarrow>
          \<not> right (walls (cells m ! 0 ! c)) \<and> \<not> left (walls (cells m ! 0 ! (c + 1)))) \<and>
       (\<forall>c<nat n. top_wall (walls (cells m ! 0 ! c)) \<and> bottom (walls (cells m ! 0 ! c)))"
    using gen conn inner outer by blast
next
  have one: "(0::int) < 1" by simp
  from generateMaze_finished[OF assms(1) assms(2) one] obtain m st where
    gen: "generateMaze rnd n 1 = Some (Inr m)"
    and m: "rows m = n" "cols m = 1" "cells m = grid st"
    and inv: "carve_inv (nat n) (nat 1) st" and empty: "stack st = []"
    by blast
  have pos: "0 < nat n" "0 < nat 1" using assms by simp_all
  have conn: "\<exists>p. simple_path m a b p" if "maze_cell m a" "maze_cell m b" for a b
  proof -
    from finished_tree(1)[OF inv empty pos, of a b] that
    obtain p where "spath (passage (grid st)) a b p"
      unfolding maze_cell_def m by blast
    then show ?thesis unfolding simple_path_def m ..
  qed
  have inner: "\<not> bottom (walls (cells m ! r ! 0)) \<and> \<not> top_wall (walls (cells m ! (r + 1) ! 0))"
    if "r + 1 < nat n" for r
  proof -
    have "((r, 0), (r + 1, 0)) \<in> set (grid_edges (nat n) (nat 1))"
      using that by (simp add: set_grid_edges in_grid_def south_def)
    then have "passage (grid st) (r, 0) (r + 1, 0)"
      using corridor_open[OF inv empty pos] by fastforce
    moreover have "south (r, 0) (r + 1, 0)" by (simp add: south_def)
    ultimately show ?thesis unfolding m using passage_south by (fastforce simp: deref_def)
  qed
  have bw: "boundary_walls (nat n) (nat 1) (grid st)" using inv by (simp add: carve_inv_def)
  have outer: "left (walls (cells m ! r ! 0)) \<and> right (walls (cells m ! r ! 0))"
    if "r < nat n" for r
  proof -
    have "in_grid (nat n) (nat 1) (r, 0)" using that by (simp add: in_grid_def)
    then have "left (walls (deref (grid st) (r, 0)))" "right (walls (deref (grid st) (r, 0)))"
      using bw unfolding boundary_walls_def by (simp_all del: nat_1)
    then show ?thesis unfolding m by (simp add: deref_def)
  qed
  show "\<exists>m. generateMaze rnd n 1 = Some (Inr m) \<and>
       (\<forall>a b. maze_cell m a \<and> maze_cell m b \<longrightarrow> (\<exists>p. simple_path m a b p)) \<and>
       (\<forall>r. r + 1 < nat n \<longrightarrow>
          \<not> bottom (walls (cells m ! r ! 0)) \<and> \<not> top_wall (walls (cells m ! (r + 1) ! 0))) \<and>
       (\<forall>r<nat n. left (walls (cells m ! r ! 0)) \<and> right (walls (cells m ! r ! 0)))"
    using gen conn inner outer by blast
qed

theorem generateMaze_corridor_witness:
  "unit_range (\<lambda>k. 0) \<and> (0::int) < 3 \<and>
   (\<exists>m. generateMaze (\<lambda>k. 0) 1 3 = Some (Inr m) \<and>
        \<not> right (walls (cells m ! 0 ! 1)) \<and> \<not> left (walls (cells m ! 0 ! 2)) \<and>
        top_wall (walls (cells m ! 0 ! 2)) \<and> bottom (walls (cells m ! 0 ! 2))) \<and>
   (\<exists>m. generateMaze (\<lambda>k. 0) 3 1 = Some (Inr m) \<and>
        \<not> bottom (walls (cells m ! 1 ! 0)) \<and> \<not> top_wall (walls (cells m ! 2 ! 0)) \<and>
        left (walls (cells m ! 2 ! 0)) \<and> right (walls (cells m ! 2 ! 0)))"
proof -
  have h: "unit_range (\<lambda>k. 0)" by (simp add: unit_range_def)
  have n: "(0::int) < 3" by simp
  note c = generateMaze_corridor[OF h n]
  from c[THEN conjunct1] obtain m1 where
    m1: "generateMaze (\<lambda>k. 0) 1 3 = Some (Inr m1)"
    "\<forall>c. c + 1 < nat 3 \<longrightarrow>
          \<not> right (walls (cells m1 ! 0 ! c)) \<and> \<not> left (walls (cells m1 ! 0 ! (c + 1)))"
    "\<forall>c<nat 3. top_wall (walls (cells m1 ! 0 ! c)) \<and> bottom (walls (cells m1 ! 0 ! c))"
    by blast
  from c[THEN conjunct2] obtain m2 where
    m2: "generateMaze (\<lambda>k. 0) 3 1 = Some (Inr m2)"
    "\<forall>r. r + 1 < nat 3 \<longrightarrow>
          \<not> bottom (walls (cells m2 ! r ! 0)) \<and> \<not> top_wall (walls (cells m2 ! (r + 1) ! 0))"
    "\<forall>r<nat 3. left (walls (cells m2 ! r ! 0)) \<and> right (walls (cells m2 ! r ! 0))"
    by blast
  have a: "(1::nat) + 1 < nat 3" and b: "(2::nat) < nat 3" by simp_all
  have "\<not> right (walls (cells m1 ! 0 ! 1)) \<and> \<not> left (walls (cells m1 ! 0 ! 2))"
    using m1(2)[rule_format, OF a, unfolded one_add_one] .
  moreover have "top_wall (walls (cells m1 ! 0 ! 2)) \<and> bottom (walls (cells m1 ! 0 ! 2))"
    using m1(3)[rule_format, OF b] .
  moreover have "\<not> bottom (walls (cells m2 ! 1 ! 0)) \<and> \<not> top_wall (walls (cells m2 ! 2 ! 0))"
    using m2(2)[rule_format, OF a, unfolded one_add_one] .
  moreover have "left (walls (cells m2 ! 2 ! 0)) \<and> right (walls (cells m2 ! 2 ! 0))"
    using m2(3)[rule_format, OF b] .
  ultimately show ?thesis using h n m1(1) m2(1) by blast
qed

subsection \<open>The two-by-two grid\<close>

lemma length_concat_wf: "wf_grid R C g \<Longrightarrow> length (concat g) = R * C"
proof -
  assume wf: "wf_grid R C g"
  then have "map length g = replicate R C"
    by (auto simp: wf_grid_def list_eq_iff_nth_eq)
  then show ?thesis by (simp add: length_concat sum_list_replicate)
qed

lemma grid_edges_2x2:
  "grid_edges 2 2 = [((0, 0), (0, 1)), ((1, 0), (1, 1)), ((0, 0), (1, 0)), ((0, 1), (1, 1))]"
  by code_simp

lemma path_nodes:
  assumes "successively adj p" and "2 \<le> length p"
    and "\<And>x y. adj x y \<Longrightarrow> x \<in> V \<and> y \<in> V"
  shows "set p \<subseteq> V"
proof -
  obtain x y q where p: "p = x # y # q"
    using assms(2) by (cases p; cases "tl p") auto
  then have "adj x y" using assms(1) by simp
  then have h: "hd p \<in> V" using assms(3) p by auto
  show ?thesis
  proof (rule successively_nodes[OF assms(1) _ h])
    fix x y
    assume "adj x y"
    then show "x \<in> V \<and> y \<in> V" by (rule assms(3))
  qed
qed

lemma simple_path_short:
  assumes wf: "wf_grid R C g" and pos: "0 < R * C" and sp: "spath (passage g) a b p"
  shows "length p \<le> R * C"
proof (cases "2 \<le> length p")
  case True
  have "set p \<subseteq> {q. in_grid R C q}"
  proof (rule path_nodes[OF _ True])
    show "successively (passage g) p" using sp by (simp add: spath_def)
  next
    fix x y assume "passage g x y"
    then show "x \<in> {q. in_grid R C q} \<and> y \<in> {q. in_grid R C q}"
      using wf by (simp add: passage_def in_cells_wf)
  qed
  moreover have "finite {q. in_grid R C q}"
    using card_in_grid[of R C] pos by (metis card.infinite less_numeral_extra(3))
  ultimately have "card (set p) \<le> card {q. in_grid R C q}" by (metis card_mono)
  moreover have "card (set p) = length p" using sp by (simp add: spath_def distinct_card)
  ultimately show ?thesis by (simp add: card_in_grid)
next
  case False
  then have "length p \<le> 1" by simp
  moreover have "1 \<le> R * C" using pos by simp
  ultimately show ?thesis by (rule le_trans)
qed

text \<open>
  C6. For every random sequence, \<^verbatim>\<open>generateMaze(2, 2)\<close> returns a maze with exactly 4
  cells and exactly 3 removed-wall edges, \<open>start = (0, 0)\<close>, \<open>end = (1, 1)\<close>; the unique
  passage path from \<open>(0, 0)\<close> to \<open>(1, 1)\<close> has at most 2 hops, and no simple path of the
  maze has more than 3 hops (the tree has diameter at most 3).
\<close>

theorem generateMaze_2x2:
  assumes "unit_range rnd"
  shows "\<exists>m. generateMaze rnd 2 2 = Some (Inr m) \<and>
     length (concat (cells m)) = 4 \<and>
     length (passages m) = 3 \<and>
     start m = (0, 0) \<and> end_pos m = (1, 1) \<and>
     (\<exists>!p. simple_path m (0, 0) (1, 1) p) \<and>
     (\<forall>p. simple_path m (0, 0) (1, 1) p \<longrightarrow> length p - 1 \<le> 2) \<and>
     (\<forall>a b p. simple_path m a b p \<longrightarrow> length p - 1 \<le> 3)"
proof -
  have two: "(0::int) < 2" by simp
  from generateMaze_finished[OF assms two two] obtain m st where
    gen: "generateMaze rnd 2 2 = Some (Inr m)"
    and m: "rows m = 2" "cols m = 2" "cells m = grid st"
    and se: "start m = (0, 0)" "end_pos m = (2 - 1, 2 - 1)"
    and inv: "carve_inv (nat 2) (nat 2) st" and empty: "stack st = []"
    by blast
  have n2: "nat 2 = (2::nat)" by simp
  note inv2 = inv[unfolded n2]
  have pos: "0 < (2::nat)" by simp
  have wf: "wf_grid 2 2 (grid st)" using inv2 by (simp add: carve_inv_def)
  note ft = finished_tree[OF inv2 empty pos pos]
  let ?P = "\<lambda>e. passage (grid st) (fst e) (snd e)"
  have cells4: "length (concat (cells m)) = 4"
    unfolding m using length_concat_wf[OF wf] by simp
  have "length (filter ?P (grid_edges 2 2)) + 1 = 2 * 2"
    using ft(3) by (simp add: length_filter_grid_edges)
  then have three: "length (filter ?P (grid_edges 2 2)) = 3" by simp
  have edges3: "length (passages m) = 3"
    unfolding passages_def m n2 by (rule three)
  have route: "?P ((0, 0), (0, 1)) \<and> ?P ((0, 1), (1, 1)) \<or> ?P ((0, 0), (1, 0)) \<and> ?P ((1, 0), (1, 1))"
    using three unfolding grid_edges_2x2 by (simp split: if_splits)
  have ex: "\<exists>p. spath (passage (grid st)) (0, 0) (1, 1) p \<and> length p = 3"
  proof -
    from route show ?thesis
    proof
      assume "?P ((0, 0), (0, 1)) \<and> ?P ((0, 1), (1, 1))"
      then have "spath (passage (grid st)) (0, 0) (1, 1) [(0, 0), (0, 1), (1, 1)]"
        by (simp add: spath_def)
      then show ?thesis by (intro exI[of _ "[(0, 0), (0, 1), (1, 1)]"]) simp
    next
      assume "?P ((0, 0), (1, 0)) \<and> ?P ((1, 0), (1, 1))"
      then have "spath (passage (grid st)) (0, 0) (1, 1) [(0, 0), (1, 0), (1, 1)]"
        by (simp add: spath_def)
      then show ?thesis by (intro exI[of _ "[(0, 0), (1, 0), (1, 1)]"]) simp
    qed
  qed
  have corners: "in_grid 2 2 (0, 0)" "in_grid 2 2 (1, 1)" by (simp_all add: in_grid_def)
  have uniq: "\<exists>!p. spath (passage (grid st)) (0, 0) (1, 1) p"
    by (rule ft(1)[OF corners])
  have hops: "length p - 1 \<le> 2" if "spath (passage (grid st)) (0, 0) (1, 1) p" for p
  proof -
    from ex obtain q where q: "spath (passage (grid st)) (0, 0) (1, 1) q" "length q = 3"
      by blast
    from uniq obtain r where r: "\<And>x. spath (passage (grid st)) (0, 0) (1, 1) x \<Longrightarrow> x = r"
      by (rule ex1E) blast
    have "p = r" "q = r" using r that q(1) by blast+
    then have "p = q" by simp
    then show ?thesis using q(2) by simp
  qed
  have diam: "length p - 1 \<le> 3" if "spath (passage (grid st)) a b p" for a b p
    using simple_path_short[OF wf _ that] by simp
  show ?thesis
  proof (rule exI[of _ m], intro conjI)
    show "generateMaze rnd 2 2 = Some (Inr m)" by (rule gen)
    show "length (concat (cells m)) = 4" by (rule cells4)
    show "length (passages m) = 3" by (rule edges3)
    show "start m = (0, 0)" by (rule se)
    show "end_pos m = (1, 1)" using se(2) by simp
    show "\<exists>!p. simple_path m (0, 0) (1, 1) p"
      unfolding simple_path_def m by (rule uniq)
    show "\<forall>p. simple_path m (0, 0) (1, 1) p \<longrightarrow> length p - 1 \<le> 2"
      unfolding simple_path_def m using hops by blast
    show "\<forall>a b p. simple_path m a b p \<longrightarrow> length p - 1 \<le> 3"
      unfolding simple_path_def m using diam by blast
  qed
qed

theorem generateMaze_2x2_witness:
  "unit_range (\<lambda>k. 9 / 10) \<and>
   (\<exists>m. generateMaze (\<lambda>k. 9 / 10) 2 2 = Some (Inr m) \<and> length (concat (cells m)) = 4 \<and>
        length (passages m) = 3 \<and> start m = (0, 0) \<and> end_pos m = (1, 1))"
proof -
  have h: "unit_range (\<lambda>k. 9 / 10)" by (simp add: unit_range_def)
  from generateMaze_2x2[OF h] obtain m where
    "generateMaze (\<lambda>k. 9 / 10) 2 2 = Some (Inr m)" "length (concat (cells m)) = 4"
    "length (passages m) = 3" "start m = (0, 0)" "end_pos m = (1, 1)"
    by blast
  then show ?thesis using h by blast
qed

subsection \<open>Rounding to a double\<close>

lemma round_half_even_of_int: "round_half_even (of_int k) = k"
  by (simp add: round_half_even_def)

lemma double_exponent_eq:
  assumes "2 powi e \<le> \<bar>x\<bar>" and "\<bar>x\<bar> < 2 powi (e + 1)" and "- 1022 \<le> e"
  shows "double_exponent x = e"
proof -
  have "(0::real) < 2 powi e" by simp
  then have pos: "0 < \<bar>x\<bar>" using assms(1) by linarith
  have p: "(2::real) powr real_of_int k = 2 powi k" for k
    by (rule powr_real_of_int') simp_all
  have "(2::real) powr real_of_int e \<le> \<bar>x\<bar> \<and> \<bar>x\<bar> < 2 powr (real_of_int e + 1)"
    using assms(1,2) p[of e] p[of "e + 1"] by simp
  then have "\<lfloor>log 2 \<bar>x\<bar>\<rfloor> = e"
    using floor_log_eq_powr_iff[of "\<bar>x\<bar>" 2 e] pos by simp
  then show ?thesis using assms(3) by (simp add: double_exponent_def)
qed

lemma to_double_exact:
  assumes e: "2 powi e \<le> \<bar>x\<bar>" "\<bar>x\<bar> < 2 powi (e + 1)" "- 1022 \<le> e"
    and k: "x = of_int k * 2 powi (e - 52)" and fin: "\<bar>x\<bar> < 2 powi 1024"
  shows "to_double x = Number x"
proof -
  have "(0::real) < 2 powi e" by simp
  then have "0 < \<bar>x\<bar>" using e(1) by linarith
  then have x0: "x \<noteq> 0" by simp
  have q: "(2::real) powi (e - 52) \<noteq> 0" by simp
  have "x / 2 powi (e - 52) = of_int k" using k q by simp
  then have "of_int (round_half_even (x / 2 powi (e - 52))) * 2 powi (e - 52) = x"
    using k by (simp add: round_half_even_of_int)
  then show ?thesis
    using x0 fin by (simp add: to_double_def double_exponent_eq[OF e] Let_def abs_less_iff)
qed

lemma to_double_of_int:
  assumes "\<bar>n\<bar> \<le> 2 ^ 53"
  shows "to_double (of_int n) = Number (of_int n)"
proof (cases "n = 0")
  case True
  then show ?thesis by (simp add: to_double_def)
next
  case False
  define x where "x = real_of_int n"
  define e where "e = \<lfloor>log 2 \<bar>x\<bar>\<rfloor>"
  have x1: "1 \<le> \<bar>x\<bar>" using False by (simp add: x_def)
  have xle: "\<bar>x\<bar> \<le> 2 ^ 53"
  proof -
    have "real_of_int \<bar>n\<bar> \<le> real_of_int (2 ^ 53)" using assms by (rule of_int_le_iff[THEN iffD2])
    then show ?thesis by (simp add: x_def)
  qed
  have p: "(2::real) powr real_of_int k = 2 powi k" for k
    by (rule powr_real_of_int') simp_all
  have "(2::real) powr real_of_int e \<le> \<bar>x\<bar> \<and> \<bar>x\<bar> < 2 powr (real_of_int e + 1)"
    using floor_log_eq_powr_iff[of "\<bar>x\<bar>" 2 e] x1 by (simp add: e_def)
  then have b: "2 powi e \<le> \<bar>x\<bar>" "\<bar>x\<bar> < 2 powi (e + 1)"
    using p[of e] p[of "e + 1"] by simp_all
  have e0: "0 \<le> e"
  proof -
    have "0 \<le> log 2 \<bar>x\<bar>" using x1 by simp
    then show ?thesis by (simp add: e_def)
  qed
  have e53: "e \<le> 53"
  proof (rule ccontr)
    assume "\<not> e \<le> 53"
    then have "54 \<le> e" by simp
    then have "(2::real) powi 54 \<le> 2 powi e" by (intro power_int_increasing) simp_all
    then have "(2::real) ^ 54 \<le> \<bar>x\<bar>" using b(1) by simp
    then show False using xle by simp
  qed
  have fin: "\<bar>x\<bar> < 2 powi 1024"
  proof -
    have "(2::real) ^ 53 < 2 ^ 1024" by (rule power_strict_increasing) simp_all
    then show ?thesis using xle by simp
  qed
  have "\<exists>k. x = of_int k * 2 powi (e - 52)"
  proof (cases "e \<le> 52")
    case True
    have "(2::real) powi (52 - e) * 2 powi (e - 52) = 2 powi ((52 - e) + (e - 52))"
      by (rule power_int_add[symmetric]) simp
    then have one: "(2::real) powi (52 - e) * 2 powi (e - 52) = 1" by simp
    have "(2::real) powi (52 - e) = of_int (2 ^ nat (52 - e))"
      using True by (simp add: power_int_def)
    then have "x = of_int (n * 2 ^ nat (52 - e)) * 2 powi (e - 52)"
      using one by (simp add: x_def mult.assoc)
    then show ?thesis ..
  next
    case False
    then have e: "e = 53" using e53 by simp
    have "(2::real) ^ 53 \<le> \<bar>x\<bar>" using b(1) e by simp
    then have "\<bar>x\<bar> = 2 ^ 53" using xle by simp
    then have "real_of_int \<bar>n\<bar> = real_of_int (2 ^ 53)" by (simp add: x_def)
    then have "\<bar>n\<bar> = 2 ^ 53" by (rule of_int_eq_iff[THEN iffD1])
    then have "even \<bar>n\<bar>" by simp
    then have "even n" by simp
    then have "n = 2 * (n div 2)" by simp
    then have "x = of_int (n div 2) * 2" by (simp add: x_def) 
    then have "x = of_int (n div 2) * 2 powi (e - 52)" using e by simp
    then show ?thesis ..
  qed
  then obtain k where k: "x = of_int k * 2 powi (e - 52)" ..
  have "- 1022 \<le> e" using e0 by simp
  from to_double_exact[OF b this k fin] show ?thesis by (simp add: x_def)
qed

lemma to_double_eval:
  assumes "2 powi e \<le> \<bar>x\<bar>" and "\<bar>x\<bar> < 2 powi (e + 1)" and "- 1022 \<le> e"
    and "round_half_even (x / 2 powi (e - 52)) = k"
    and "\<bar>real_of_int k * 2 powi (e - 52)\<bar> < 2 powi 1024"
  shows "to_double x = Number (of_int k * 2 powi (e - 52))"
proof -
  have "(0::real) < 2 powi e" by simp
  then have "0 < \<bar>x\<bar>" using assms(1) by linarith
  then have x0: "x \<noteq> 0" by simp
  show ?thesis
    using x0 assms(4,5)
    by (simp add: to_double_def double_exponent_eq[OF assms(1-3)] Let_def abs_less_iff)
qed

lemma tie_rounds_to_even:
  "round_half_even (10808639105689191 / 2) = 5404319552844596"
  by (simp add: round_half_even_def)

lemma three_tenths:
  "to_double (3 * one_tenth) = Number (10808639105689192 / 2 ^ 55)"
proof -
  have r: "round_half_even (3 * one_tenth / 2 powi (- 2 - 52)) = 5404319552844596"
    using tie_rounds_to_even by (simp add: one_tenth_def power_int_minus field_simps)
  have "to_double (3 * one_tenth) = Number (of_int 5404319552844596 * 2 powi (- 2 - 52))"
    by (rule to_double_eval[OF _ _ _ r]) (simp_all add: one_tenth_def power_int_minus field_simps)
  then show ?thesis by (simp add: power_int_minus field_simps)
qed

lemma one_tenth_is_double: "to_double one_tenth = Number one_tenth"
  by (rule to_double_exact[where e = "- 4" and k = 7205759403792794])
     (simp_all add: one_tenth_def power_int_minus field_simps)

lemma three_tenths_is_double:
  "to_double (10808639105689192 / 2 ^ 55) = Number (10808639105689192 / 2 ^ 55)"
  by (rule to_double_exact[where e = "- 2" and k = 5404319552844596])
     (simp_all add: power_int_minus field_simps)

lemma big_is_double: "to_double 30000000000000000 = Number 30000000000000000"
  by (rule to_double_exact[where e = 54 and k = 7500000000000000]) simp_all

lemma big_plus_one: "to_double 30000000000000001 = Number 30000000000000000"
proof -
  have r: "round_half_even (30000000000000001 / 2 powi (54 - 52)) = 7500000000000000"
    by (simp add: round_half_even_def)
  have "to_double 30000000000000001 = Number (of_int 7500000000000000 * 2 powi (54 - 52))"
    by (rule to_double_eval[OF _ _ _ r]) simp_all
  then show ?thesis by simp
qed

text \<open>
  C9 as stated fails. \<^verbatim>\<open>getMazeDimensions\<close> computes in doubles, and the product and the
  sum are rounded: for a maze of 3 columns, cell size \<^verbatim>\<open>0.1\<close> and wall thickness 0 the
  width is \<open>10808639105689192 / 2^55\<close> and not \<open>cols * cellSize + wallThickness\<close>, which
  is \<open>10808639105689191 / 2^55\<close>; for 1 column, cell size \<open>3 * 10^16\<close> and wall thickness
  1 the width is \<open>3 * 10^16\<close> and not \<open>3 * 10^16 + 1\<close>. The cell sizes are doubles.
\<close>

theorem getMazeDimensions_rounds_counterexample:
  "to_double one_tenth = Number one_tenth \<and>
   width (getMazeDimensions (uncarved_maze 3 3) (size_options (Number one_tenth) (Number 0))) =
     Number (10808639105689192 / 2 ^ 55) \<and>
   width (getMazeDimensions (uncarved_maze 3 3) (size_options (Number one_tenth) (Number 0))) \<noteq>
     Number (of_int (cols (uncarved_maze 3 3)) * one_tenth + 0) \<and>
   to_double 30000000000000000 = Number 30000000000000000 \<and>
   width (getMazeDimensions (uncarved_maze 1 1)
            (size_options (Number 30000000000000000) (Number 1))) =
     Number 30000000000000000 \<and>
   width (getMazeDimensions (uncarved_maze 1 1)
            (size_options (Number 30000000000000000) (Number 1))) \<noteq>
     Number (of_int (cols (uncarved_maze 1 1)) * 30000000000000000 + 1)"
proof -
  define y :: real where "y = 10808639105689192 / 2 ^ 55"
  have a: "to_double (3 * one_tenth) = Number y"
    using three_tenths by (simp only: y_def)
  have b: "to_double y = Number y"
    using three_tenths_is_double by (simp only: y_def)
  have "width (getMazeDimensions (uncarved_maze 3 3)
        (size_options (Number one_tenth) (Number 0))) = Number y"
    by (simp add: getMazeDimensions_def merge_options_def size_options_def uncarved_maze_def
        Let_def a b)
  then have w1: "width (getMazeDimensions (uncarved_maze 3 3)
        (size_options (Number one_tenth) (Number 0))) = Number (10808639105689192 / 2 ^ 55)"
    by (simp only: y_def)
  have n1: "Number (10808639105689192 / 2 ^ 55) \<noteq>
      Number (of_int (cols (uncarved_maze 3 3)) * one_tenth + 0)"
    by (simp add: uncarved_maze_def one_tenth_def)
  have w2: "width (getMazeDimensions (uncarved_maze 1 1)
        (size_options (Number 30000000000000000) (Number 1))) = Number 30000000000000000"
    by (simp add: getMazeDimensions_def merge_options_def size_options_def uncarved_maze_def
        Let_def big_is_double big_plus_one)
  have n2: "Number 30000000000000000 \<noteq>
      Number (of_int (cols (uncarved_maze 1 1)) * 30000000000000000 + 1)"
    by (simp add: uncarved_maze_def)
  show ?thesis
    using one_tenth_is_double big_is_double w1 w2 n1 n2 by simp
qed

text \<open>
  C9, amended. For every maze and every cell size and wall thickness of integer value,
  all at most \<open>2^53\<close> in magnitude and such that the products \<open>cols * cellSize\<close>,
  \<open>rows * cellSize\<close> and the sums \<open>cols * cellSize + wallThickness\<close>,
  \<open>rows * cellSize + wallThickness\<close> are at most \<open>2^53\<close> in magnitude,
  \<^verbatim>\<open>getMazeDimensions\<close> returns exactly \<open>width = cols * cellSize + wallThickness\<close> and
  \<open>height = rows * cellSize + wallThickness\<close>.
\<close>

theorem getMazeDimensions_footprint:
  assumes "\<bar>rows m\<bar> \<le> 2 ^ 53" and "\<bar>cols m\<bar> \<le> 2 ^ 53"
    and "\<bar>cs\<bar> \<le> 2 ^ 53" and "\<bar>wt\<bar> \<le> 2 ^ 53"
    and "\<bar>cols m * cs\<bar> \<le> 2 ^ 53" and "\<bar>cols m * cs + wt\<bar> \<le> 2 ^ 53"
    and "\<bar>rows m * cs\<bar> \<le> 2 ^ 53" and "\<bar>rows m * cs + wt\<bar> \<le> 2 ^ 53"
  shows "getMazeDimensions m
           (options\<lparr>cellSize_opt := Some (Number (of_int cs)),
                    wallThickness_opt := Some (Number (of_int wt))\<rparr>) =
         \<lparr>width = Number (of_int (cols m * cs + wt)),
          height = Number (of_int (rows m * cs + wt))\<rparr>"
proof -
  have w: "js_plus (js_times (Number (of_int (cols m))) (Number (of_int cs))) (Number (of_int wt))
      = Number (of_int (cols m * cs + wt))"
    using to_double_of_int[OF assms(5)] to_double_of_int[OF assms(6)] by simp
  have h: "js_plus (js_times (Number (of_int (rows m))) (Number (of_int cs))) (Number (of_int wt))
      = Number (of_int (rows m * cs + wt))"
    using to_double_of_int[OF assms(7)] to_double_of_int[OF assms(8)] by simp
  show ?thesis
    using w h by (simp add: getMazeDimensions_def merge_options_def Let_def)
qed

theorem getMazeDimensions_footprint_witness:
  "\<bar>20 * 16 + 3 :: int\<bar> \<le> 2 ^ 53 \<and> \<bar>30 * 16 + 3 :: int\<bar> \<le> 2 ^ 53 \<and>
   getMazeDimensions (uncarved_maze 30 20) (size_options (Number 16) (Number 3)) =
     \<lparr>width = Number 323, height = Number 483\<rparr>"
proof -
  have b: "\<bar>20 * 16 + 3 :: int\<bar> \<le> 2 ^ 53" "\<bar>30 * 16 + 3 :: int\<bar> \<le> 2 ^ 53" by simp_all
  have "getMazeDimensions (uncarved_maze 30 20)
      ((size_options (Number 16) (Number 3))
         \<lparr>cellSize_opt := Some (Number (of_int 16)), wallThickness_opt := Some (Number (of_int 3))\<rparr>) =
      \<lparr>width = Number (of_int (cols (uncarved_maze 30 20) * 16 + 3)),
       height = Number (of_int (rows (uncarved_maze 30 20) * 16 + 3))\<rparr>"
    by (rule getMazeDimensions_footprint) (simp_all add: uncarved_maze_def)
  then have "getMazeDimensions (uncarved_maze 30 20) (size_options (Number 16) (Number 3)) =
     \<lparr>width = Number 323, height = Number 483\<rparr>"
    by (simp add: size_options_def uncarved_maze_def)
  then show ?thesis using b by simp
qed

subsection \<open>The grid before the loop\<close>

lemma createGrid_fresh:
  assumes "rw \<in> set (createGrid nrows ncols)" and "x \<in> set rw"
  shows "walls x = \<lparr>top_wall = True, right = True, bottom = True, left = True\<rparr> \<and> \<not> visited x"
  using assms by (auto simp: createGrid_eq new_cell_def)

lemma createGrid_no_cells:
  "nrows \<le> 0 \<or> ncols \<le> 0 \<Longrightarrow> concat (createGrid nrows ncols) = []"
  by (auto simp: createGrid_eq)

text \<open>
  C2. For all integer inputs, \<^verbatim>\<open>generateMaze(rows, cols)\<close> raises \<open>InvalidGridSize\<close>
  exactly when \<open>rows \<le> 0\<close> or \<open>cols \<le> 0\<close>, whatever the random numbers. It raises on the
  grid as \<^verbatim>\<open>createGrid\<close> built it, before the loop: the top-left cell is missing, and
  no cell of that grid has lost a wall or been visited. For \<open>rows > 0\<close> and \<open>cols > 0\<close>
  (and random numbers in \<open>[0, 1)\<close>) the call returns a maze.
\<close>

theorem generateMaze_invalid_grid_size:
  "(generateMaze rnd nrows ncols = Some (Inl InvalidGridSize)) = (nrows \<le> 0 \<or> ncols \<le> 0) \<and>
   (lookup (createGrid nrows ncols) 0 0 = None) = (nrows \<le> 0 \<or> ncols \<le> 0) \<and>
   (\<forall>rw \<in> set (createGrid nrows ncols). \<forall>x \<in> set rw.
      walls x = \<lparr>top_wall = True, right = True, bottom = True, left = True\<rparr> \<and> \<not> visited x) \<and>
   (0 < nrows \<and> 0 < ncols \<and> unit_range rnd \<longrightarrow>
      (\<exists>m. generateMaze rnd nrows ncols = Some (Inr m)))"
proof (intro conjI)
  show "(generateMaze rnd nrows ncols = Some (Inl InvalidGridSize)) = (nrows \<le> 0 \<or> ncols \<le> 0)"
  proof
    assume e: "generateMaze rnd nrows ncols = Some (Inl InvalidGridSize)"
    show "nrows \<le> 0 \<or> ncols \<le> 0"
    proof (rule ccontr)
      assume "\<not> (nrows \<le> 0 \<or> ncols \<le> 0)"
      then have "0 < nrows" "0 < ncols" by simp_all
      then show False using generateMaze_no_error e by blast
    qed
  next
    assume "nrows \<le> 0 \<or> ncols \<le> 0"
    then show "generateMaze rnd nrows ncols = Some (Inl InvalidGridSize)"
      by (rule generateMaze_error)
  qed
  show "(lookup (createGrid nrows ncols) 0 0 = None) = (nrows \<le> 0 \<or> ncols \<le> 0)"
    by (auto simp: lookup_origin)
  show "\<forall>rw \<in> set (createGrid nrows ncols). \<forall>x \<in> set rw.
      walls x = \<lparr>top_wall = True, right = True, bottom = True, left = True\<rparr> \<and> \<not> visited x"
    using createGrid_fresh by blast
  show "0 < nrows \<and> 0 < ncols \<and> unit_range rnd \<longrightarrow>
      (\<exists>m. generateMaze rnd nrows ncols = Some (Inr m))"
  proof
    assume h: "0 < nrows \<and> 0 < ncols \<and> unit_range rnd"
    then have "unit_range rnd" "0 < nrows" "0 < ncols" by simp_all
    from generateMaze_finished[OF this] obtain m where
      "generateMaze rnd nrows ncols = Some (Inr m)" by blast
    then show "\<exists>m. generateMaze rnd nrows ncols = Some (Inr m)" ..
  qed
qed

theorem generateMaze_invalid_grid_size_witness:
  "generateMaze (\<lambda>k. 1 / 2) 0 5 = Some (Inl InvalidGridSize) \<and>
   generateMaze (\<lambda>k. 1 / 2) 5 (- 1) = Some (Inl InvalidGridSize) \<and>
   generateMaze (\<lambda>k. 1 / 2) 2 2 \<noteq> Some (Inl InvalidGridSize) \<and>
   unit_range (\<lambda>k. 1 / 2) \<and> (\<exists>m. generateMaze (\<lambda>k. 1 / 2) 2 2 = Some (Inr m))"
proof -
  have h: "unit_range (\<lambda>k. 1 / 2)" by (simp add: unit_range_def)
  have "generateMaze (\<lambda>k. 1 / 2) 0 5 = Some (Inl InvalidGridSize)"
    using generateMaze_invalid_grid_size[of "\<lambda>k. 1 / 2" 0 5] by simp
  moreover have "generateMaze (\<lambda>k. 1 / 2) 5 (- 1) = Some (Inl InvalidGridSize)"
    using generateMaze_invalid_grid_size[of "\<lambda>k. 1 / 2" 5 "- 1"] by simp
  moreover have "generateMaze (\<lambda>k. 1 / 2) 2 2 \<noteq> Some (Inl InvalidGridSize) \<and>
      (\<exists>m. generateMaze (\<lambda>k. 1 / 2) 2 2 = Some (Inr m))"
    using generateMaze_invalid_grid_size[of "\<lambda>k. 1 / 2" 2 2] h by simp
  ultimately show ?thesis using h by blast
qed

subsection \<open>The loop with its history of pushes\<close>

lemma carve_pushes_empty: "stack st = [] \<Longrightarrow> carve_pushes rnd st pushed = Some (st, pushed)"
  by (subst carve_pushes.simps) simp

lemma carve_pushes_pop:
  assumes "stack st \<noteq> []" and "getUnvisitedNeighbors (grid st) (last (stack st)) = []"
  shows "carve_pushes rnd st pushed = carve_pushes rnd (st\<lparr>stack := butlast (stack st)\<rparr>) pushed"
  using assms by (subst carve_pushes.simps) (simp add: top_of_stack)

lemma carve_pushes_push:
  assumes "stack st \<noteq> []"
    and "getUnvisitedNeighbors (grid st) (last (stack st)) = ns" and "ns \<noteq> []"
    and "0 \<le> random_index (rnd (draws st)) (length ns)"
    and "random_index (rnd (draws st)) (length ns) < int (length ns)"
  shows "carve_pushes rnd st pushed =
     carve_pushes rnd \<lparr>grid = carved (grid st) (last (stack st))
                        (ns ! nat (random_index (rnd (draws st)) (length ns))),
                stack = stack st @ [ns ! nat (random_index (rnd (draws st)) (length ns))],
                draws = Suc (draws st)\<rparr>
       (pushed @ [ns ! nat (random_index (rnd (draws st)) (length ns))])"
  using assms by (subst carve_pushes.simps) (simp add: js_index_def nth_top carved_def Let_def)

lemma carve_pushes_total:
  assumes ur: "unit_range rnd"
  shows "carve_inv R C st \<Longrightarrow> distinct pushed \<Longrightarrow> set pushed = vis R C (grid st) \<Longrightarrow>
     \<exists>st' pushed'. carve_pushes rnd st pushed = Some (st', pushed') \<and> carve rnd st = Some st' \<and>
        distinct pushed' \<and> set pushed' = vis R C (grid st')"
proof (induction "2 * (R * C - card (vis R C (grid st))) + length (stack st)"
    arbitrary: st pushed rule: less_induct)
  case less
  note inv = less.prems(1) and dist = less.prems(2) and cover = less.prems(3)
  show ?case
  proof (cases "stack st = []")
    case True
    then show ?thesis
      using dist cover carve_empty[OF True] carve_pushes_empty[OF True] by simp
  next
    case ne: False
    define ns where "ns = getUnvisitedNeighbors (grid st) (last (stack st))"
    show ?thesis
    proof (cases "ns = []")
      case True
      let ?st = "st\<lparr>stack := butlast (stack st)\<rparr>"
      have none: "getUnvisitedNeighbors (grid st) (last (stack st)) = []"
        using True by (simp add: ns_def)
      have inv': "carve_inv R C ?st" by (rule carve_inv_pop[OF inv ne none])
      have cover': "set pushed = vis R C (grid ?st)" using cover by simp
      have "2 * (R * C - card (vis R C (grid ?st))) + length (stack ?st)
          < 2 * (R * C - card (vis R C (grid st))) + length (stack st)"
        using ne by simp
      from less.hyps[OF this inv' dist cover'] show ?thesis
        using carve_pop[OF ne none, of rnd] carve_pushes_pop[OF ne none, of rnd pushed] by simp
    next
      case False
      define k where "k = random_index (rnd (draws st)) (length ns)"
      have u: "0 \<le> rnd (draws st)" "rnd (draws st) < 1" using ur by (simp_all add: unit_range_def)
      have len: "0 < length ns" using False by simp
      have k: "0 \<le> k" "k < int (length ns)"
        unfolding k_def using random_index_range[OF u len] by simp_all
      define nxt where "nxt = ns ! nat k"
      let ?st = "\<lparr>grid = carved (grid st) (last (stack st)) nxt, stack = stack st @ [nxt],
                  draws = Suc (draws st)\<rparr>"
      have "nat k < length ns" using k by simp
      then have mem: "nxt \<in> set (getUnvisitedNeighbors (grid st) (last (stack st)))"
        unfolding nxt_def ns_def[symmetric] by (rule nth_mem)
      have inv': "carve_inv R C ?st" by (rule carve_inv_push(1)[OF inv ne mem])
      have card': "card (vis R C (grid ?st)) = card (vis R C (grid st)) + 1"
        using carve_inv_push(2)[OF inv ne mem] by simp
      have le: "card (vis R C (grid ?st)) \<le> R * C" by (rule card_vis_le)
      have wf: "wf_grid R C (grid st)" and sub: "set (stack st) \<subseteq> vis R C (grid st)"
        using inv by (simp_all add: carve_inv_def)
      have "last (stack st) \<in> vis R C (grid st)" using sub last_in_set[OF ne] by blast
      then have c: "in_grid R C (last (stack st))" by (simp add: vis_def)
      have n: "in_grid R C nxt" "grid_adjacent (last (stack st)) nxt" "\<not> visited (deref (grid st) nxt)"
        using mem by (simp_all add: getUnvisitedNeighbors_set[OF wf c])
      have v': "vis R C (grid ?st) = insert nxt (vis R C (grid st))"
        using vis_carved[OF wf c n(1,2)] by simp
      have new: "nxt \<notin> set pushed" using n(3) cover by (simp add: vis_def)
      have dist': "distinct (pushed @ [nxt])" using dist new by simp
      have cover': "set (pushed @ [nxt]) = vis R C (grid ?st)" using cover v' by simp
      have "2 * (R * C - card (vis R C (grid ?st))) + length (stack ?st)
          < 2 * (R * C - card (vis R C (grid st))) + length (stack st)"
        using card' le by simp
      note ih = less.hyps[OF this inv' dist' cover']
      have "carve rnd st = carve rnd ?st"
        unfolding nxt_def k_def
        by (rule carve_push[where rnd = rnd, OF ne ns_def[symmetric] False k[unfolded k_def]])
      moreover have "carve_pushes rnd st pushed = carve_pushes rnd ?st (pushed @ [nxt])"
        unfolding nxt_def k_def
        by (rule carve_pushes_push[where rnd = rnd, OF ne ns_def[symmetric] False k[unfolded k_def]])
      ultimately show ?thesis using ih by simp
    qed
  qed
qed

text \<open>
  C7. For every \<open>rows > 0\<close> and \<open>cols > 0\<close> and every random sequence (in \<open>[0, 1)\<close>), the
  carving loop of \<^verbatim>\<open>generateMaze\<close> terminates with an empty stack; no cell is pushed
  onto the stack twice (the history of pushes has no repetition), every cell is pushed,
  and at termination every one of the \<open>rows * cols\<close> cells is visited.
\<close>

theorem carve_terminates_single_visit:
  assumes "unit_range rnd" and "0 < nrows" and "0 < ncols"
  shows "\<exists>st pushed.
     carve_pushes rnd (carve_start nrows ncols) [(0, 0)] = Some (st, pushed) \<and>
     carve rnd (carve_start nrows ncols) = Some st \<and>
     generateMaze rnd nrows ncols =
       Some (Inr \<lparr>rows = nrows, cols = ncols, cells = grid st,
                  start = (0, 0), end_pos = (nrows - 1, ncols - 1)\<rparr>) \<and>
     stack st = [] \<and> distinct pushed \<and> length pushed = nat nrows * nat ncols \<and>
     (\<forall>r<nat nrows. \<forall>c<nat ncols. (r, c) \<in> set pushed \<and> visited (grid st ! r ! c))"
proof -
  let ?R = "nat nrows" and ?C = "nat ncols"
  let ?init = "carve_start nrows ncols"
  have inv0: "carve_inv ?R ?C ?init"
    unfolding carve_start_def by (rule carve_inv_init[OF assms(2,3)])
  have v0: "set [(0, 0)] = vis ?R ?C (grid ?init)"
    unfolding carve_start_def using vis_init[OF assms(2,3)] by simp
  have d0: "distinct [(0, 0) :: ref]" by simp
  from carve_pushes_total[OF assms(1) inv0 d0 v0] obtain st pushed where
    run: "carve_pushes rnd ?init [(0, 0)] = Some (st, pushed)" "carve rnd ?init = Some st"
    and hist: "distinct pushed" "set pushed = vis ?R ?C (grid st)"
    by blast
  from carve_total[OF assms(1) inv0] run(2) have
    inv: "carve_inv ?R ?C st" and empty: "stack st = []"
    by auto
  have all: "vis ?R ?C (grid st) = {p. in_grid ?R ?C p}" by (rule carve_inv_done[OF inv empty])
  have gen: "generateMaze rnd nrows ncols =
       Some (Inr \<lparr>rows = nrows, cols = ncols, cells = grid st,
                  start = (0, 0), end_pos = (nrows - 1, ncols - 1)\<rparr>)"
    using assms(2,3) run(2) by (simp add: generateMaze_def lookup_origin carve_start_def)
  have "length pushed = card (set pushed)" using hist(1) by (simp add: distinct_card)
  then have len: "length pushed = ?R * ?C" unfolding hist(2) all card_in_grid .
  have each: "(r, c) \<in> set pushed \<and> visited (grid st ! r ! c)" if "r < ?R" "c < ?C" for r c
  proof -
    have "(r, c) \<in> vis ?R ?C (grid st)" unfolding all using that by (simp add: in_grid_def)
    then show ?thesis using hist(2) by (simp add: vis_def deref_def)
  qed
  show ?thesis
    using run gen empty hist(1) len each by blast
qed

theorem carve_terminates_single_visit_witness:
  "unit_range (\<lambda>k. 1 / 4) \<and> (0::int) < 2 \<and>
   (\<exists>st pushed. carve_pushes (\<lambda>k. 1 / 4) (carve_start 2 2) [(0, 0)] = Some (st, pushed) \<and>
      carve (\<lambda>k. 1 / 4) (carve_start 2 2) = Some st \<and> stack st = [] \<and> distinct pushed \<and>
      length pushed = 4)"
proof -
  have h: "unit_range (\<lambda>k. 1 / 4)" by (simp add: unit_range_def)
  have two: "(0::int) < 2" by simp
  from carve_terminates_single_visit[OF h two two] obtain st pushed where
    "carve_pushes (\<lambda>k. 1 / 4) (carve_start 2 2) [(0, 0)] = Some (st, pushed)"
    "carve (\<lambda>k. 1 / 4) (carve_start 2 2) = Some st" "stack st = []" "distinct pushed"
    "length pushed = nat 2 * nat 2"
    by blast
  then show ?thesis using h by auto
qed

subsection \<open>The loop reads only the random numbers it draws\<close>

lemma carve_prefix:
  assumes ur: "unit_range rnd1"
  shows "carve_inv R C st \<Longrightarrow>
     (\<And>k. draws st \<le> k \<Longrightarrow> k < draws st + (R * C - card (vis R C (grid st))) \<Longrightarrow>
        rnd2 k = rnd1 k) \<Longrightarrow>
     carve rnd2 st = carve rnd1 st"
proof (induction "2 * (R * C - card (vis R C (grid st))) + length (stack st)"
    arbitrary: st rule: less_induct)
  case less
  note inv = less.prems(1) and same = less.prems(2)
  show ?case
  proof (cases "stack st = []")
    case True
    then show ?thesis by (simp add: carve_empty)
  next
    case ne: False
    define ns where "ns = getUnvisitedNeighbors (grid st) (last (stack st))"
    show ?thesis
    proof (cases "ns = []")
      case True
      let ?st = "st\<lparr>stack := butlast (stack st)\<rparr>"
      have none: "getUnvisitedNeighbors (grid st) (last (stack st)) = []"
        using True by (simp add: ns_def)
      have inv': "carve_inv R C ?st" by (rule carve_inv_pop[OF inv ne none])
      have less': "2 * (R * C - card (vis R C (grid ?st))) + length (stack ?st)
          < 2 * (R * C - card (vis R C (grid st))) + length (stack st)"
        using ne by simp
      have "carve rnd2 ?st = carve rnd1 ?st"
      proof (rule less.hyps[OF less' inv'])
        fix k
        assume "draws ?st \<le> k" "k < draws ?st + (R * C - card (vis R C (grid ?st)))"
        then show "rnd2 k = rnd1 k" using same[of k] by simp
      qed
      then show ?thesis
        using carve_pop[OF ne none, of rnd1] carve_pop[OF ne none, of rnd2] by simp
    next
      case False
      define k where "k = random_index (rnd1 (draws st)) (length ns)"
      have u: "0 \<le> rnd1 (draws st)" "rnd1 (draws st) < 1" using ur by (simp_all add: unit_range_def)
      have len: "0 < length ns" using False by simp
      have k: "0 \<le> k" "k < int (length ns)"
        unfolding k_def using random_index_range[OF u len] by simp_all
      define nxt where "nxt = ns ! nat k"
      let ?st = "\<lparr>grid = carved (grid st) (last (stack st)) nxt, stack = stack st @ [nxt],
                  draws = Suc (draws st)\<rparr>"
      have "nat k < length ns" using k by simp
      then have mem: "nxt \<in> set (getUnvisitedNeighbors (grid st) (last (stack st)))"
        unfolding nxt_def ns_def[symmetric] by (rule nth_mem)
      have inv': "carve_inv R C ?st" by (rule carve_inv_push(1)[OF inv ne mem])
      have card': "card (vis R C (grid ?st)) = card (vis R C (grid st)) + 1"
        using carve_inv_push(2)[OF inv ne mem] by simp
      have le: "card (vis R C (grid ?st)) \<le> R * C" by (rule card_vis_le)
      have less': "2 * (R * C - card (vis R C (grid ?st))) + length (stack ?st)
          < 2 * (R * C - card (vis R C (grid st))) + length (stack st)"
        using card' le by simp
      have now: "rnd2 (draws st) = rnd1 (draws st)"
        using same[of "draws st"] card' le by simp
      have k2: "k = random_index (rnd2 (draws st)) (length ns)" by (simp add: k_def now)
      have later: "carve rnd2 ?st = carve rnd1 ?st"
      proof (rule less.hyps[OF less' inv'])
        fix j
        assume "draws ?st \<le> j" "j < draws ?st + (R * C - card (vis R C (grid ?st)))"
        then show "rnd2 j = rnd1 j" using same[of j] card' le by simp
      qed
      have "carve rnd1 st = carve rnd1 ?st"
        unfolding nxt_def k_def
        by (rule carve_push[where rnd = rnd1, OF ne ns_def[symmetric] False k[unfolded k_def]])
      moreover have "carve rnd2 st = carve rnd2 ?st"
        unfolding nxt_def k2
        by (rule carve_push[where rnd = rnd2, OF ne ns_def[symmetric] False k[unfolded k2]])
      ultimately show ?thesis using later by simp
    qed
  qed
qed

text \<open>
  C8. Determinism: the result of \<^verbatim>\<open>generateMaze(rows, cols)\<close> is a function of the
  dimensions and of the random numbers the call consumes. A call draws at most
  \<open>rows * cols - 1\<close> numbers, so two calls whose random sequences (the first in \<open>[0, 1)\<close>)
  agree on that many numbers return the same outcome: the same walls in every cell, the
  same start and end.
\<close>

theorem generateMaze_deterministic:
  assumes "unit_range rnd1"
    and "\<forall>k. k < nat nrows * nat ncols - 1 \<longrightarrow> rnd2 k = rnd1 k"
  shows "generateMaze rnd2 nrows ncols = generateMaze rnd1 nrows ncols \<and>
     generateMaze rnd1 nrows ncols \<noteq> None"
proof (cases "0 < nrows \<and> 0 < ncols")
  case True
  then have pos: "0 < nrows" "0 < ncols" by simp_all
  let ?init = "\<lparr>grid = set_visited (createGrid nrows ncols) (0, 0) True, stack = [(0, 0)],
                 draws = 0\<rparr>"
  have inv0: "carve_inv (nat nrows) (nat ncols) ?init" by (rule carve_inv_init[OF pos])
  have "carve rnd2 ?init = carve rnd1 ?init"
  proof (rule carve_prefix[OF assms(1) inv0])
    fix k
    assume "k < draws ?init +
        (nat nrows * nat ncols - card (vis (nat nrows) (nat ncols) (grid ?init)))"
    then have "k < nat nrows * nat ncols - 1" by (simp add: vis_init[OF pos])
    then show "rnd2 k = rnd1 k" using assms(2) by blast
  qed
  then have "generateMaze rnd2 nrows ncols = generateMaze rnd1 nrows ncols"
    using pos by (simp add: generateMaze_def lookup_origin)
  moreover from generateMaze_finished[OF assms(1) pos] obtain m where
    "generateMaze rnd1 nrows ncols = Some (Inr m)" by blast
  ultimately show ?thesis by simp
next
  case False
  then have "nrows \<le> 0 \<or> ncols \<le> 0" by auto
  then show ?thesis by (simp add: generateMaze_error)
qed

theorem generateMaze_deterministic_witness:
  "unit_range rnd_a \<and> \<not> unit_range rnd_b \<and> rnd_b 0 = rnd_a 0 \<and> rnd_b 2 = rnd_a 2 \<and>
   generateMaze rnd_b 2 2 = generateMaze rnd_a 2 2"
proof -
  have h: "unit_range rnd_a" by (simp add: unit_range_def rnd_a_def)
  have p: "\<forall>k. k < nat 2 * nat 2 - 1 \<longrightarrow> rnd_b k = rnd_a k"
    by (simp add: rnd_a_def rnd_b_def)
  have "\<not> (rnd_b 3 < 1)" by (simp add: rnd_b_def)
  then have n: "\<not> unit_range rnd_b" unfolding unit_range_def by blast
  have e: "generateMaze rnd_b 2 2 = generateMaze rnd_a 2 2"
    using generateMaze_deterministic[OF h p] by blast
  have "rnd_b 0 = rnd_a 0" "rnd_b 2 = rnd_a 2" by (simp_all add: rnd_a_def rnd_b_def)
  then show ?thesis using e h n by blast
qed

end
